theory Spec2Isabelle
  imports Main
begin

section \<open>Data model of grid-test.js (class RayGridGame)\<close>

text \<open>
  The source keeps everything in one object. The fields the ray tracer, the grid
  operations and the signal decoder read or write are the fields of the record
  \<open>game\<close> below; the DOM handles, the countdown clock and the score counters are left out.

  \<^item> \<open>this.state\<close> is an array of row arrays of numbers
    (0 = empty, 1 = player obstacle, 2 = fixed obstacle). The source never asks for
    a length of it and only indexes it, so it is a map from the row index to a map from the
    column index to the number: an absent row is what makes \<open>this.state[r][c]\<close>
    raise a TypeError, an absent column reads as \<open>undefined\<close> (\<open>None\<close>).
  \<^item> Sides are the strings of the source (\<open>left\<close>, \<open>right\<close>, \<open>top\<close>, \<open>bottom\<close>);
    any other string makes \<open>entryStartOutside\<close> throw.
  \<^item> Directions are the strings N, S, E, W of the source, which only ever come from
    \<open>entryStartOutside\<close> and \<open>rotateCCW\<close>; they are the four constructors of \<open>dir\<close>,
    so the \<open>Bad dir\<close> defaults of the two switches have no counterpart.
  \<^item> The reason of a result is a message string in the source; the five messages are the
    constructors of \<open>reason\<close>, the one that quotes the exit carries it.
\<close>

datatype error = InvalidEntrySide | ExpectedOutside | TypeError

datatype dir = DirN | DirS | DirE | DirW

datatype outcome = WIN | LOSE

record boundary =
  side :: string
  index :: int

record level =
  entry :: boundary
  exit :: boundary

datatype reason =
    ExitedDesignated
  | ExitedElsewhere boundary
  | NeverEntered
  | LoopDetected
  | StepLimit

record pathEntry =
  entry_r :: int
  entry_c :: int
  dirBeforeCell :: dir
  cellType :: string

record simResult =
  outcome :: outcome
  exitInfo :: "boundary option"
  path :: "pathEntry list"
  reason :: reason

record rawSignal =
  signal :: int
  timestamp :: int

type_synonym matrix = "int \<rightharpoonup> (int \<rightharpoonup> int)"

record game =
  N :: int
  level :: level
  state :: matrix
  coverVisible :: bool
  signalBuffer :: "rawSignal list"
  signalTimeoutMs :: int
  signal9Timer :: bool

text \<open>
  \<open>signal9Timer\<close> is the handle of the one pending \<open>setTimeout\<close> callback or null:
  \<open>True\<close> while a callback is armed and has neither run nor been cleared.
\<close>

section \<open>Ray logic\<close>

fun dirToDelta :: "dir \<Rightarrow> int \<times> int" where
  "dirToDelta DirN = (-1, 0)"
| "dirToDelta DirS = (1, 0)"
| "dirToDelta DirE = (0, 1)"
| "dirToDelta DirW = (0, -1)"

fun rotateCCW :: "dir \<Rightarrow> dir" where
  "rotateCCW DirN = DirW"
| "rotateCCW DirW = DirS"
| "rotateCCW DirS = DirE"
| "rotateCCW DirE = DirN"

definition isInside :: "game \<Rightarrow> int \<Rightarrow> int \<Rightarrow> bool" where
  "isInside g r c \<longleftrightarrow> r \<ge> 0 \<and> r < N g \<and> c \<ge> 0 \<and> c < N g"

definition entryStartOutside :: "game \<Rightarrow> error + (int \<times> int \<times> dir)" where
  "entryStartOutside g =
     (let s = side (entry (level g)); i = index (entry (level g)) in
      if s = ''left'' then Inr (i, -1, DirE)
      else if s = ''right'' then Inr (i, N g, DirW)
      else if s = ''top'' then Inr (-1, i, DirS)
      else if s = ''bottom'' then Inr (N g, i, DirN)
      else Inl InvalidEntrySide)"

definition computeExitSideAndIndex ::
    "game \<Rightarrow> int \<Rightarrow> int \<Rightarrow> int \<Rightarrow> int \<Rightarrow> error + boundary" where
  "computeExitSideAndIndex g lastInsideR lastInsideC nextR nextC =
     (if nextR < 0 then Inr \<lparr>side = ''top'', index = lastInsideC\<rparr>
      else if nextR \<ge> N g then Inr \<lparr>side = ''bottom'', index = lastInsideC\<rparr>
      else if nextC < 0 then Inr \<lparr>side = ''left'', index = lastInsideR\<rparr>
      else if nextC \<ge> N g then Inr \<lparr>side = ''right'', index = lastInsideR\<rparr>
      else Inl ExpectedOutside)"

text \<open>\<open>this.state[r][c]\<close>: TypeError when the row is absent, \<open>undefined\<close> when the column is.\<close>

definition readCell :: "game \<Rightarrow> int \<Rightarrow> int \<Rightarrow> error + int option" where
  "readCell g r c = (case state g r of None \<Rightarrow> Inl TypeError | Some rw \<Rightarrow> Inr (rw c))"

text \<open>\<open>this.state[r][c] = v\<close>: TypeError when the row is absent, else the row is updated.\<close>

definition writeCell :: "game \<Rightarrow> int \<Rightarrow> int \<Rightarrow> int \<Rightarrow> error + game" where
  "writeCell g r c v =
     (case state g r of
        None \<Rightarrow> Inl TypeError
      | Some rw \<Rightarrow> Inr (g\<lparr>state := (state g)(r \<mapsto> rw(c \<mapsto> v))\<rparr>))"

definition maxSteps :: nat where
  "maxSteps = 512"

definition cellTypeOf :: "int option \<Rightarrow> string" where
  "cellTypeOf cellVal =
     (if cellVal = Some 2 then ''FIXED'' else if cellVal = Some 1 then ''PLAYER'' else ''EMPTY'')"

definition exitResult :: "game \<Rightarrow> boundary \<Rightarrow> pathEntry list \<Rightarrow> simResult" where
  "exitResult g info pth =
     (let win = (side info = side (exit (level g)) \<and> index info = index (exit (level g))) in
      \<lparr>outcome = (if win then WIN else LOSE), exitInfo = Some info, path = pth,
       reason = (if win then ExitedDesignated else ExitedElsewhere info)\<rparr>)"

text \<open>
  The \<open>while (steps++ < maxSteps)\<close> loop of \<open>traceRay\<close>, one call per test of the loop
  condition; \<open>steps\<close> is the counter before the test, \<open>visited\<close> the set of keys
  \<open>r,c,dir\<close> and \<open>pth\<close> the path built so far.
\<close>

function traceLoop ::
    "game \<Rightarrow> nat \<Rightarrow> int \<Rightarrow> int \<Rightarrow> dir \<Rightarrow> (int \<times> int \<times> dir) set \<Rightarrow> pathEntry list
       \<Rightarrow> error + simResult" where
  "traceLoop g steps r c d visited pth =
     (if steps < maxSteps then
        (let nr = r + fst (dirToDelta d); nc = c + snd (dirToDelta d) in
         if \<not> isInside g nr nc then
           (if isInside g r c then
              (case computeExitSideAndIndex g r c nr nc of
                 Inl e \<Rightarrow> Inl e
               | Inr info \<Rightarrow> Inr (exitResult g info pth))
            else Inr \<lparr>outcome = LOSE, exitInfo = None, path = pth, reason = NeverEntered\<rparr>)
         else if (nr, nc, d) \<in> visited then
           Inr \<lparr>outcome = LOSE, exitInfo = None, path = pth, reason = LoopDetected\<rparr>
         else
           (case readCell g nr nc of
              Inl e \<Rightarrow> Inl e
            | Inr cellVal \<Rightarrow>
                traceLoop g (steps + 1) nr nc
                  (if cellVal = Some 1 \<or> cellVal = Some 2 then rotateCCW d else d)
                  (insert (nr, nc, d) visited)
                  (pth @ [\<lparr>entry_r = nr, entry_c = nc, dirBeforeCell = d,
                           cellType = cellTypeOf cellVal\<rparr>])))
      else Inr \<lparr>outcome = LOSE, exitInfo = None, path = pth, reason = StepLimit\<rparr>)"
  by pat_completeness auto
termination
  by (relation "measure (\<lambda>(g, steps, r, c, d, visited, pth). maxSteps - steps)") auto

declare traceLoop.simps [simp del]

definition traceRay :: "game \<Rightarrow> error + simResult" where
  "traceRay g =
     (case entryStartOutside g of
        Inl e \<Rightarrow> Inl e
      | Inr (r, c, d) \<Rightarrow> traceLoop g 0 r c d {} [])"

section \<open>Cell toggling\<close>

definition toggleCell :: "game \<Rightarrow> int \<Rightarrow> int \<Rightarrow> error + game" where
  "toggleCell g r c =
     (case readCell g r c of
        Inl e \<Rightarrow> Inl e
      | Inr v \<Rightarrow>
          if coverVisible g \<and> v = Some 2 then Inr g
          else if \<not> coverVisible g \<and> v = Some 2 then writeCell g r c 0
          else if \<not> coverVisible g \<and> v = Some 0 then writeCell g r c 2
          else if \<not> coverVisible g \<and> v = Some 1 then writeCell g r c 0
          else writeCell g r c (if v = Some 1 then 0 else 1))"

text \<open>The inner and the outer \<open>for\<close> loop of \<open>resetPlayerObstacles\<close>.\<close>

function resetCols :: "game \<Rightarrow> int \<Rightarrow> int \<Rightarrow> error + game" where
  "resetCols g r c =
     (if c < N g then
        (case readCell g r c of
           Inl e \<Rightarrow> Inl e
         | Inr v \<Rightarrow>
             if v = Some 1 then
               (case writeCell g r c 0 of
                  Inl e \<Rightarrow> Inl e
                | Inr g' \<Rightarrow> resetCols g' r (c + 1))
             else resetCols g r (c + 1))
      else Inr g)"
  by pat_completeness auto
termination
  by (relation "measure (\<lambda>(g, r, c). nat (N g - c))")
     (auto simp: writeCell_def split: option.splits)

declare resetCols.simps [simp del]

function resetRows :: "game \<Rightarrow> int \<Rightarrow> error + game" where
  "resetRows g r =
     (if r < N g then
        (case resetCols g r 0 of
           Inl e \<Rightarrow> Inl e
         | Inr g' \<Rightarrow> resetRows g' (r + 1))
      else Inr g)"
  by pat_completeness auto
termination
proof -
  have keepN: "resetCols g r c = Inr g' \<Longrightarrow> N g' = N g" for g r c g'
  proof (induction g r c rule: resetCols.induct)
    case (1 g r c)
    then show ?case
      by (subst (asm) (3) resetCols.simps)
         (auto simp: writeCell_def split: if_splits sum.splits option.splits)
  qed
  show ?thesis
    by (relation "measure (\<lambda>(g, r). nat (N g - r))") (auto dest: keepN)
qed

declare resetRows.simps [simp del]

definition resetPlayerObstacles :: "game \<Rightarrow> error + game" where
  "resetPlayerObstacles g = resetRows g 0"

section \<open>Signal decoder\<close>

text \<open>
  \<open>processSignal\<close> calls \<open>toggleCell\<close>, \<open>resetPlayerObstacles\<close> and \<open>fireRay\<close>; each call
  is recorded as a command, in the order of the calls. \<open>toggleCell\<close> and
  \<open>resetPlayerObstacles\<close> also act on the grid, as in the source. \<open>fireRay\<close> traces
  the ray and animates the path; it changes none of the fields of \<open>game\<close>, so it is only
  recorded.
\<close>

datatype command = ToggleCell int int | FireRay | ResetObstacles

definition processSignal :: "game \<Rightarrow> int \<Rightarrow> int \<Rightarrow> error + (command list \<times> game)" where
  "processSignal g sig ts =
     (if sig = 9 then
        (let g1 = g\<lparr>signal9Timer := False\<rparr>;
             now = ts;
             recent9 = filter (\<lambda>item. signal item = 9 \<and> now - timestamp item \<le> signalTimeoutMs g1)
                         (signalBuffer g1)
         in if length recent9 > 0 then
              (case resetPlayerObstacles
                      (g1\<lparr>signalBuffer := filter (\<lambda>item. signal item \<noteq> 9) (signalBuffer g1)\<rparr>) of
                 Inl e \<Rightarrow> Inl e
               | Inr g2 \<Rightarrow> Inr ([ResetObstacles], g2))
            else
              Inr ([], g1\<lparr>signalBuffer := signalBuffer g1 @ [\<lparr>signal = sig, timestamp = ts\<rparr>],
                           signal9Timer := True\<rparr>))
      else
        (let now = ts;
             g1 = g\<lparr>signalBuffer :=
                      filter (\<lambda>item. now - timestamp item \<le> signalTimeoutMs g \<and> signal item \<noteq> 9)
                        (signalBuffer g)\<rparr>;
             g2 = g1\<lparr>signalBuffer := signalBuffer g1 @ [\<lparr>signal = sig, timestamp = ts\<rparr>]\<rparr>;
             coordinateSignals = filter (\<lambda>item. signal item \<noteq> 9) (signalBuffer g2)
         in if length coordinateSignals \<ge> 2 then
              (let first = coordinateSignals ! (length coordinateSignals - 2);
                   second = coordinateSignals ! (length coordinateSignals - 1);
                   timeDiff = timestamp second - timestamp first
               in if timeDiff \<le> signalTimeoutMs g2 \<and> timeDiff \<ge> 0 then
                    (let r = signal first - 1; c = signal second - 1 in
                     if r \<ge> 0 \<and> r < N g2 \<and> c \<ge> 0 \<and> c < N g2 then
                       (case toggleCell g2 r c of
                          Inl e \<Rightarrow> Inl e
                        | Inr g3 \<Rightarrow>
                            Inr ([ToggleCell r c],
                                 g3\<lparr>signalBuffer :=
                                      filter (\<lambda>item. signal item = 9) (signalBuffer g3)\<rparr>))
                     else
                       Inr ([], g2\<lparr>signalBuffer :=
                                     filter (\<lambda>item. signal item = 9) (signalBuffer g2)\<rparr>))
                  else
                    Inr ([], g2\<lparr>signalBuffer :=
                                  filter (\<lambda>item. signal item = 9) (signalBuffer g2) @ [second]\<rparr>))
            else Inr ([], g2)))"

text \<open>
  The callback given to \<open>setTimeout\<close> in \<open>processSignal\<close>. It runs once the window has
  elapsed, unless \<open>clearTimeout\<close> was called on it before: with no armed timer nothing runs.
\<close>

definition signal9TimerFires :: "game \<Rightarrow> command list \<times> game" where
  "signal9TimerFires g =
     (if signal9Timer g then
        (let current9s = filter (\<lambda>item. signal item = 9) (signalBuffer g) in
         if length current9s = 1 then
           ([FireRay], g\<lparr>signalBuffer := filter (\<lambda>item. signal item \<noteq> 9) (signalBuffer g),
                         signal9Timer := False\<rparr>)
         else ([], g\<lparr>signal9Timer := False\<rparr>))
      else ([], g))"

text \<open>
  What reaches the decoder: a signal with its timestamp, or the window of the armed timer
  elapsing. \<open>runEvents\<close> feeds a sequence of them, collecting the commands.
\<close>

datatype event = Signal int int | WindowElapsed

fun runEvents :: "game \<Rightarrow> event list \<Rightarrow> error + (command list \<times> game)" where
  "runEvents g [] = Inr ([], g)"
| "runEvents g (Signal sig ts # evs) =
     (case processSignal g sig ts of
        Inl e \<Rightarrow> Inl e
      | Inr (cmds, g') \<Rightarrow>
          (case runEvents g' evs of
             Inl e \<Rightarrow> Inl e
           | Inr (cmds', g'') \<Rightarrow> Inr (cmds @ cmds', g'')))"
| "runEvents g (WindowElapsed # evs) =
     (case signal9TimerFires g of
        (cmds, g') \<Rightarrow>
          (case runEvents g' evs of
             Inl e \<Rightarrow> Inl e
           | Inr (cmds', g'') \<Rightarrow> Inr (cmds @ cmds', g'')))"

section \<open>The game as the constructor builds it\<close>

definition emptyMatrix :: "int \<Rightarrow> matrix" where
  "emptyMatrix n =
     (\<lambda>r. if 0 \<le> r \<and> r < n then Some (\<lambda>c. if 0 \<le> c \<and> c < n then Some 0 else None) else None)"

text \<open>
  \<open>Array.from\<close> with \<open>fill(0)\<close>, then \<open>this.state[r][c] = 2\<close> for the fixed obstacles of the
  level, all of which lie in the grid.
\<close>

fun markFixed :: "matrix \<Rightarrow> (int \<times> int) list \<Rightarrow> matrix" where
  "markFixed m [] = m"
| "markFixed m ((r, c) # rest) =
     markFixed (case m r of None \<Rightarrow> m | Some rw \<Rightarrow> m(r \<mapsto> rw(c \<mapsto> 2))) rest"

definition fixedObstacles :: "(int \<times> int) list" where
  "fixedObstacles = [(0, 1), (1, 5), (2, 3), (3, 6), (4, 6), (5, 2), (6, 4), (6, 6)]"

definition newGame :: game where
  "newGame =
     \<lparr>N = 8,
      level = \<lparr>entry = \<lparr>side = ''left'', index = 3\<rparr>, exit = \<lparr>side = ''bottom'', index = 5\<rparr>\<rparr>,
      state = markFixed (emptyMatrix 8) fixedObstacles,
      coverVisible = False,
      signalBuffer = [],
      signalTimeoutMs = 3000,
      signal9Timer = False\<rparr>"

section \<open>Cell kinds and well-formed grids\<close>

text \<open>The three numbers a cell holds (comment at the declaration of \<open>this.state\<close>).\<close>

datatype cellKind = Empty | PlayerObstacle | FixedObstacle

fun cellCode :: "cellKind \<Rightarrow> int" where
  "cellCode Empty = 0"
| "cellCode PlayerObstacle = 1"
| "cellCode FixedObstacle = 2"

definition kindAt :: "game \<Rightarrow> int \<Rightarrow> int \<Rightarrow> cellKind \<Rightarrow> bool" where
  "kindAt g r c k \<longleftrightarrow> readCell g r c = Inr (Some (cellCode k))"

definition wfGrid :: "game \<Rightarrow> bool" where
  "wfGrid g \<longleftrightarrow>
     (\<forall>r c. isInside g r c \<longrightarrow>
        kindAt g r c Empty \<or> kindAt g r c PlayerObstacle \<or> kindAt g r c FixedObstacle)"

definition resetMatrix :: "int \<Rightarrow> matrix \<Rightarrow> matrix" where
  "resetMatrix n m =
     (\<lambda>i. if 0 \<le> i \<and> i < n
          then map_option (\<lambda>rw j. if 0 \<le> j \<and> j < n \<and> rw j = Some 1 then Some 0 else rw j) (m i)
          else m i)"

text \<open>A game in play mode with a player obstacle at (3, 2), used as a concrete input.\<close>

definition playGame :: game where
  "playGame =
     newGame\<lparr>coverVisible := True,
             state := (state newGame)(3 \<mapsto> (\<lambda>c. if 0 \<le> c \<and> c < 8
                          then Some (if c = 2 then 1 else if c = 6 then 2 else 0) else None))\<rparr>"

section \<open>The path of a trace\<close>

text \<open>
  The key \<open>r,c,dir\<close> of a path entry, the direction the ray has after the cell of an
  entry (turned if the cell holds 1 or 2), and the relation between an entry and the
  next one: the ray leaves the cell in that direction and enters the neighbour.
\<close>

definition key :: "pathEntry \<Rightarrow> int \<times> int \<times> dir" where
  "key e = (entry_r e, entry_c e, dirBeforeCell e)"

definition dirAfterCell :: "game \<Rightarrow> pathEntry \<Rightarrow> dir" where
  "dirAfterCell g e =
     (case readCell g (entry_r e) (entry_c e) of
        Inl x \<Rightarrow> dirBeforeCell e
      | Inr v \<Rightarrow> if v = Some 1 \<or> v = Some 2 then rotateCCW (dirBeforeCell e) else dirBeforeCell e)"

definition follows :: "game \<Rightarrow> pathEntry \<Rightarrow> pathEntry \<Rightarrow> bool" where
  "follows g e e' \<longleftrightarrow>
     dirBeforeCell e' = dirAfterCell g e \<and>
     entry_r e' = entry_r e + fst (dirToDelta (dirBeforeCell e')) \<and>
     entry_c e' = entry_c e + snd (dirToDelta (dirBeforeCell e'))"

definition pathInv ::
    "game \<Rightarrow> int \<times> int \<times> dir \<Rightarrow> nat \<Rightarrow> int \<Rightarrow> int \<Rightarrow> dir \<Rightarrow> (int \<times> int \<times> dir) set
       \<Rightarrow> pathEntry list \<Rightarrow> bool" where
  "pathInv g s0 steps r c d visited pth \<longleftrightarrow>
     length pth = steps \<and> steps \<le> maxSteps \<and>
     visited = key ` set pth \<and> distinct (map key pth) \<and>
     (\<forall>e \<in> set pth. isInside g (entry_r e) (entry_c e)) \<and>
     (pth = [] \<longrightarrow> (r, c, d) = s0 \<and> \<not> isInside g r c) \<and>
     (pth \<noteq> [] \<longrightarrow> entry_r (last pth) = r \<and> entry_c (last pth) = c \<and> d = dirAfterCell g (last pth)) \<and>
     (\<forall>i. i + 1 < length pth \<longrightarrow> follows g (pth ! i) (pth ! (i + 1)))"

text \<open>How the loop can end, in terms of its variables at the moment it returns.\<close>

definition finalCase ::
    "game \<Rightarrow> simResult \<Rightarrow> nat \<Rightarrow> int \<Rightarrow> int \<Rightarrow> dir \<Rightarrow> (int \<times> int \<times> dir) set \<Rightarrow> bool" where
  "finalCase g res steps r c d visited \<longleftrightarrow>
     (steps < maxSteps \<and> isInside g r c \<and>
        \<not> isInside g (r + fst (dirToDelta d)) (c + snd (dirToDelta d)) \<and>
        (\<exists>info. computeExitSideAndIndex g r c (r + fst (dirToDelta d)) (c + snd (dirToDelta d))
                   = Inr info \<and>
                exitInfo res = Some info \<and>
                (outcome res = WIN \<longleftrightarrow>
                   side info = side (exit (level g)) \<and> index info = index (exit (level g))) \<and>
                reason res \<noteq> NeverEntered \<and> reason res \<noteq> LoopDetected \<and>
                reason res \<noteq> StepLimit))
     \<or> (steps < maxSteps \<and> \<not> isInside g r c \<and>
        \<not> isInside g (r + fst (dirToDelta d)) (c + snd (dirToDelta d)) \<and>
        outcome res = LOSE \<and> exitInfo res = None \<and> reason res = NeverEntered)
     \<or> (steps < maxSteps \<and>
        isInside g (r + fst (dirToDelta d)) (c + snd (dirToDelta d)) \<and>
        (r + fst (dirToDelta d), c + snd (dirToDelta d), d) \<in> visited \<and>
        outcome res = LOSE \<and> exitInfo res = None \<and> reason res = LoopDetected)
     \<or> (steps = maxSteps \<and>
        outcome res = LOSE \<and> exitInfo res = None \<and> reason res = StepLimit)"


section \<open>Concrete games and their traces\<close>

definition newGameResult :: simResult where
  "newGameResult =
     \<lparr>outcome = LOSE, exitInfo = Some \<lparr>side = ''top'', index = 6\<rparr>,
      path =
        [\<lparr>entry_r = 3, entry_c = 0, dirBeforeCell = DirE, cellType = ''EMPTY''\<rparr>,
         \<lparr>entry_r = 3, entry_c = 1, dirBeforeCell = DirE, cellType = ''EMPTY''\<rparr>,
         \<lparr>entry_r = 3, entry_c = 2, dirBeforeCell = DirE, cellType = ''EMPTY''\<rparr>,
         \<lparr>entry_r = 3, entry_c = 3, dirBeforeCell = DirE, cellType = ''EMPTY''\<rparr>,
         \<lparr>entry_r = 3, entry_c = 4, dirBeforeCell = DirE, cellType = ''EMPTY''\<rparr>,
         \<lparr>entry_r = 3, entry_c = 5, dirBeforeCell = DirE, cellType = ''EMPTY''\<rparr>,
         \<lparr>entry_r = 3, entry_c = 6, dirBeforeCell = DirE, cellType = ''FIXED''\<rparr>,
         \<lparr>entry_r = 2, entry_c = 6, dirBeforeCell = DirN, cellType = ''EMPTY''\<rparr>,
         \<lparr>entry_r = 1, entry_c = 6, dirBeforeCell = DirN, cellType = ''EMPTY''\<rparr>,
         \<lparr>entry_r = 0, entry_c = 6, dirBeforeCell = DirN, cellType = ''EMPTY''\<rparr>],
      reason = ExitedElsewhere \<lparr>side = ''top'', index = 6\<rparr>\<rparr>"




definition neverGameResult :: simResult where
  "neverGameResult = \<lparr>outcome = LOSE, exitInfo = None, path = [], reason = NeverEntered\<rparr>"



text \<open>An empty grid wide enough for the ray to be still inside after 512 steps.\<close>

definition wideGame :: game where
  "wideGame = newGame\<lparr>N := 600, state := emptyMatrix 600\<rparr>"

definition neverGame :: game where
  "neverGame =
     newGame\<lparr>level := \<lparr>entry = \<lparr>side = ''left'', index = 9\<rparr>,
                         exit = \<lparr>side = ''bottom'', index = 5\<rparr>\<rparr>\<rparr>"

section \<open>The trajectory of the ray without memo and step limit\<close>

text \<open>
  \<open>rayStep\<close> is one iteration of the loop of \<open>traceRay\<close> that neither stops nor looks at
  the memo: advance one cell, turn if the cell entered holds 1 or 2. \<open>enteredAt g s k\<close> is
  the key \<open>r,c,dir\<close> the loop started at \<open>s\<close> builds in iteration \<open>k\<close> (counted from 0), and
  \<open>tripleRecurs\<close> says that within the step limit the keys stay in the grid up to one
  that equals an earlier one. \<open>loopInv\<close> ties the variables of the loop to the trajectory.
\<close>

fun rayStep :: "game \<Rightarrow> int \<times> int \<times> dir \<Rightarrow> int \<times> int \<times> dir" where
  "rayStep g (r, c, d) =
     (let nr = r + fst (dirToDelta d); nc = c + snd (dirToDelta d) in
      (nr, nc,
       case readCell g nr nc of
         Inl x \<Rightarrow> d
       | Inr cellVal \<Rightarrow> if cellVal = Some 1 \<or> cellVal = Some 2 then rotateCCW d else d))"

fun nextKey :: "int \<times> int \<times> dir \<Rightarrow> int \<times> int \<times> dir" where
  "nextKey (r, c, d) = (r + fst (dirToDelta d), c + snd (dirToDelta d), d)"

definition enteredAt :: "game \<Rightarrow> int \<times> int \<times> dir \<Rightarrow> nat \<Rightarrow> int \<times> int \<times> dir" where
  "enteredAt g s k = nextKey ((rayStep g ^^ k) s)"

fun keyInside :: "game \<Rightarrow> int \<times> int \<times> dir \<Rightarrow> bool" where
  "keyInside g (r, c, d) = isInside g r c"

definition tripleRecurs :: "game \<Rightarrow> int \<times> int \<times> dir \<Rightarrow> bool" where
  "tripleRecurs g s \<longleftrightarrow>
     (\<exists>j < maxSteps. \<exists>i < j.
        (\<forall>m \<le> j. keyInside g (enteredAt g s m)) \<and> enteredAt g s i = enteredAt g s j)"

definition loopInv ::
    "game \<Rightarrow> int \<times> int \<times> dir \<Rightarrow> nat \<Rightarrow> int \<Rightarrow> int \<Rightarrow> dir \<Rightarrow> (int \<times> int \<times> dir) set
       \<Rightarrow> pathEntry list \<Rightarrow> bool" where
  "loopInv g s steps r c d visited pth \<longleftrightarrow>
     (r, c, d) = (rayStep g ^^ steps) s \<and>
     visited = enteredAt g s ` {..<steps} \<and>
     (\<forall>m < steps. keyInside g (enteredAt g s m)) \<and>
     inj_on (enteredAt g s) {..<steps}"

text \<open>
  A game with a 2 by 2 block of fixed obstacles, and one in which the ray crosses its own
  path; the results of the loop on them.
\<close>

definition loopGame :: game where
  "loopGame = newGame\<lparr>state := markFixed (emptyMatrix 8) [(0, 0), (0, 1), (1, 0), (1, 1)]\<rparr>"

definition crossGame :: game where
  "crossGame = newGame\<lparr>state := markFixed (emptyMatrix 8) [(3, 5), (1, 5), (1, 3)]\<rparr>"

definition loopResult :: simResult where
  "loopResult =
     \<lparr>outcome = LOSE, exitInfo = None,
      path =
        [\<lparr>entry_r = 1, entry_c = 1, dirBeforeCell = DirE, cellType = ''FIXED''\<rparr>,
         \<lparr>entry_r = 0, entry_c = 1, dirBeforeCell = DirN, cellType = ''FIXED''\<rparr>,
         \<lparr>entry_r = 0, entry_c = 0, dirBeforeCell = DirW, cellType = ''FIXED''\<rparr>,
         \<lparr>entry_r = 1, entry_c = 0, dirBeforeCell = DirS, cellType = ''FIXED''\<rparr>],
      reason = LoopDetected\<rparr>"

definition crossResult :: simResult where
  "crossResult =
     \<lparr>outcome = LOSE, exitInfo = Some \<lparr>side = ''bottom'', index = 3\<rparr>,
      path =
        [\<lparr>entry_r = 3, entry_c = 0, dirBeforeCell = DirE, cellType = ''EMPTY''\<rparr>,
         \<lparr>entry_r = 3, entry_c = 1, dirBeforeCell = DirE, cellType = ''EMPTY''\<rparr>,
         \<lparr>entry_r = 3, entry_c = 2, dirBeforeCell = DirE, cellType = ''EMPTY''\<rparr>,
         \<lparr>entry_r = 3, entry_c = 3, dirBeforeCell = DirE, cellType = ''EMPTY''\<rparr>,
         \<lparr>entry_r = 3, entry_c = 4, dirBeforeCell = DirE, cellType = ''EMPTY''\<rparr>,
         \<lparr>entry_r = 3, entry_c = 5, dirBeforeCell = DirE, cellType = ''FIXED''\<rparr>,
         \<lparr>entry_r = 2, entry_c = 5, dirBeforeCell = DirN, cellType = ''EMPTY''\<rparr>,
         \<lparr>entry_r = 1, entry_c = 5, dirBeforeCell = DirN, cellType = ''FIXED''\<rparr>,
         \<lparr>entry_r = 1, entry_c = 4, dirBeforeCell = DirW, cellType = ''EMPTY''\<rparr>,
         \<lparr>entry_r = 1, entry_c = 3, dirBeforeCell = DirW, cellType = ''FIXED''\<rparr>,
         \<lparr>entry_r = 2, entry_c = 3, dirBeforeCell = DirS, cellType = ''EMPTY''\<rparr>,
         \<lparr>entry_r = 3, entry_c = 3, dirBeforeCell = DirS, cellType = ''EMPTY''\<rparr>,
         \<lparr>entry_r = 4, entry_c = 3, dirBeforeCell = DirS, cellType = ''EMPTY''\<rparr>,
         \<lparr>entry_r = 5, entry_c = 3, dirBeforeCell = DirS, cellType = ''EMPTY''\<rparr>,
         \<lparr>entry_r = 6, entry_c = 3, dirBeforeCell = DirS, cellType = ''EMPTY''\<rparr>,
         \<lparr>entry_r = 7, entry_c = 3, dirBeforeCell = DirS, cellType = ''EMPTY''\<rparr>],
      reason = ExitedElsewhere \<lparr>side = ''bottom'', index = 3\<rparr>\<rparr>"

section \<open>Grid operations: properties\<close>

lemma wfGrid_row: "wfGrid g \<Longrightarrow> 0 \<le> r \<Longrightarrow> r < N g \<Longrightarrow> \<exists>rw. state g r = Some rw"
proof -
  assume w: "wfGrid g" and r: "0 \<le> r" "r < N g"
  then have "isInside g r 0" by (simp add: isInside_def)
  with w show ?thesis
    by (auto simp: wfGrid_def kindAt_def readCell_def split: option.splits)
qed

lemma resetCols_closed:
  "state g r = Some rw \<Longrightarrow>
   resetCols g r c =
     Inr (g\<lparr>state := (state g)(r \<mapsto> (\<lambda>j. if c \<le> j \<and> j < N g \<and> rw j = Some 1 then Some 0 else rw j))\<rparr>)"
proof (induction g r c arbitrary: rw rule: resetCols.induct)
  case (1 g r c)
  show ?case
  proof (cases "c < N g")
    case False
    have "(\<lambda>j. if c \<le> j \<and> j < N g \<and> rw j = Some 1 then Some 0 else rw j) = rw"
      using False by auto
    then show ?thesis
      using False "1.prems" by (subst resetCols.simps) (simp add: map_upd_triv)
  next
    case True
    show ?thesis
    proof (cases "rw c = Some 1")
      case False
      have eq: "(\<lambda>j. if c + 1 \<le> j \<and> j < N g \<and> rw j = Some 1 then Some 0 else rw j)
              = (\<lambda>j. if c \<le> j \<and> j < N g \<and> rw j = Some 1 then Some 0 else rw j)"
      proof (rule ext)
        fix j
        show "(if c + 1 \<le> j \<and> j < N g \<and> rw j = Some 1 then Some 0 else rw j)
              = (if c \<le> j \<and> j < N g \<and> rw j = Some 1 then Some 0 else rw j)"
          using False by (cases "j = c") auto
      qed
      have h: "resetCols g r (c + 1) = Inr (g\<lparr>state := (state g)(r \<mapsto> (\<lambda>j. if c + 1 \<le> j \<and> j < N g \<and> rw j = Some 1 then Some 0 else rw j))\<rparr>)"
      proof (rule "1.IH"(2)[OF True _ False "1.prems"])
        show "readCell g r c = Inr (rw c)" using "1.prems" by (simp add: readCell_def)
      qed
      have step: "resetCols g r c = resetCols g r (c + 1)"
        using True False "1.prems" by (subst resetCols.simps) (simp add: readCell_def)
      show ?thesis
        by (simp only: step h eq)
    next
      case one: True
      define g1 where "g1 = g\<lparr>state := (state g)(r \<mapsto> rw(c \<mapsto> 0))\<rparr>"
      have w: "writeCell g r c 0 = Inr g1"
        using "1.prems" by (simp add: writeCell_def g1_def)
      have s1: "state g1 r = Some (rw(c \<mapsto> 0))" by (simp add: g1_def)
      have h: "resetCols g1 r (c + 1) =
          Inr (g1\<lparr>state := (state g1)(r \<mapsto> (\<lambda>j. if c + 1 \<le> j \<and> j < N g1 \<and> (rw(c \<mapsto> 0)) j = Some 1 then Some 0 else (rw(c \<mapsto> 0)) j))\<rparr>)"
      proof (rule "1.IH"(1)[OF True _ one w s1])
        show "readCell g r c = Inr (rw c)" using "1.prems" by (simp add: readCell_def)
      qed
      have step: "resetCols g r c = resetCols g1 r (c + 1)"
        using True one "1.prems" w by (subst resetCols.simps) (simp add: readCell_def)
      have g1s: "g1\<lparr>state := (state g1)(r \<mapsto> f)\<rparr> = g\<lparr>state := (state g)(r \<mapsto> f)\<rparr>" for f
        by (simp add: g1_def)
      have eq: "(\<lambda>j. if c + 1 \<le> j \<and> j < N g1 \<and> (rw(c \<mapsto> 0)) j = Some 1 then Some 0 else (rw(c \<mapsto> 0)) j)
          = (\<lambda>j. if c \<le> j \<and> j < N g \<and> rw j = Some 1 then Some 0 else rw j)"
      proof (rule ext)
        fix j
        show "(if c + 1 \<le> j \<and> j < N g1 \<and> (rw(c \<mapsto> 0)) j = Some 1 then Some 0 else (rw(c \<mapsto> 0)) j)
          = (if c \<le> j \<and> j < N g \<and> rw j = Some 1 then Some 0 else rw j)"
          using one True by (cases "j = c") (auto simp: g1_def)
      qed
      show ?thesis
        by (simp only: step h eq g1s)
    qed
  qed
qed

lemma resetRows_closed:
  "\<forall>i. r \<le> i \<and> i < N g \<longrightarrow> state g i \<noteq> None \<Longrightarrow>
   resetRows g r =
     Inr (g\<lparr>state := (\<lambda>i. if r \<le> i \<and> i < N g
                 then map_option (\<lambda>rw j. if 0 \<le> j \<and> j < N g \<and> rw j = Some 1 then Some 0 else rw j) (state g i)
                 else state g i)\<rparr>)"
proof (induction g r rule: resetRows.induct)
  case (1 g r)
  show ?case
  proof (cases "r < N g")
    case False
    then have "(\<lambda>i. if r \<le> i \<and> i < N g
                 then map_option (\<lambda>rw j. if 0 \<le> j \<and> j < N g \<and> rw j = Some 1 then Some 0 else rw j) (state g i)
                 else state g i) = state g" by (auto simp: fun_eq_iff)
    then show ?thesis using False by (subst resetRows.simps) simp
  next
    case True
    then obtain rw where rw: "state g r = Some rw" using "1.prems" by auto
    define f where "f = (\<lambda>rw j. if (0::int) \<le> j \<and> j < N g \<and> rw j = Some (1::int) then Some (0::int) else rw j)"
    define g1 where "g1 = g\<lparr>state := (state g)(r \<mapsto> f rw)\<rparr>"
    have c: "resetCols g r 0 = Inr g1"
      using resetCols_closed[OF rw, of 0] by (simp add: g1_def f_def)
    have "\<forall>i. r + 1 \<le> i \<and> i < N g1 \<longrightarrow> state g1 i \<noteq> None"
      using "1.prems" by (auto simp: g1_def)
    from "1.IH"[OF True c this]
    have h: "resetRows g1 (r + 1) = Inr (g1\<lparr>state := (\<lambda>i. if r + 1 \<le> i \<and> i < N g1
                 then map_option (\<lambda>rw j. if 0 \<le> j \<and> j < N g1 \<and> rw j = Some 1 then Some 0 else rw j) (state g1 i)
                 else state g1 i)\<rparr>)" .
    have step: "resetRows g r = resetRows g1 (r + 1)"
      using True c by (subst resetRows.simps) simp
    have g1s: "g1\<lparr>state := m\<rparr> = g\<lparr>state := m\<rparr>" for m
      by (simp add: g1_def)
    have eq: "(\<lambda>i. if r + 1 \<le> i \<and> i < N g1
                 then map_option (\<lambda>rw j. if 0 \<le> j \<and> j < N g1 \<and> rw j = Some 1 then Some 0 else rw j) (state g1 i)
                 else state g1 i) = (\<lambda>i. if r \<le> i \<and> i < N g
                 then map_option (\<lambda>rw j. if 0 \<le> j \<and> j < N g \<and> rw j = Some 1 then Some 0 else rw j) (state g i)
                 else state g i)"
    proof (rule ext)
      fix i
      show "(if r + 1 \<le> i \<and> i < N g1
                 then map_option (\<lambda>rw j. if 0 \<le> j \<and> j < N g1 \<and> rw j = Some 1 then Some 0 else rw j) (state g1 i)
                 else state g1 i) = (if r \<le> i \<and> i < N g
                 then map_option (\<lambda>rw j. if 0 \<le> j \<and> j < N g \<and> rw j = Some 1 then Some 0 else rw j) (state g i)
                 else state g i)"
        using True rw by (cases "i = r") (auto simp: g1_def f_def)
    qed
    show ?thesis
      by (simp only: step h eq g1s)
  qed
qed

lemma resetPlayerObstacles_closed:
  assumes "wfGrid g"
  shows "resetPlayerObstacles g = Inr (g\<lparr>state := resetMatrix (N g) (state g)\<rparr>)"
proof -
  have "\<forall>i. 0 \<le> i \<and> i < N g \<longrightarrow> state g i \<noteq> None"
    using wfGrid_row[OF assms] by auto
  from resetRows_closed[OF this] show ?thesis
    by (simp add: resetPlayerObstacles_def resetMatrix_def)
qed

lemma wfGrid_reset: "wfGrid g \<Longrightarrow> wfGrid (g\<lparr>state := resetMatrix (N g) (state g)\<rparr>)"
  unfolding wfGrid_def kindAt_def isInside_def readCell_def resetMatrix_def
  apply (intro allI impI)
  subgoal for r c
    apply (drule spec[of _ r], drule spec[of _ c])
    apply (auto split: option.splits)
    done
  done

lemma resetMatrix_idem: "resetMatrix n (resetMatrix n m) = resetMatrix n m"
  by (auto simp: resetMatrix_def fun_eq_iff map_option_case split: option.splits)

text \<open>
  C9. For a grid whose cells hold 0, 1 or 2, \<open>resetPlayerObstacles\<close> returns without
  raising; every in-grid cell that held a player obstacle is empty afterwards, every other
  cell, in the grid or not, reads as before, no field but \<open>state\<close> changes, and a second
  call returns the game the first call returned.
\<close>

theorem resetPlayerObstacles_spec:
  assumes "wfGrid g"
  shows "\<exists>g'. resetPlayerObstacles g = Inr g' \<and>
           (\<forall>r c. isInside g r c \<longrightarrow>
              readCell g' r c =
                (if kindAt g r c PlayerObstacle then Inr (Some (cellCode Empty))
                 else readCell g r c)) \<and>
           (\<forall>r c. \<not> isInside g r c \<longrightarrow> readCell g' r c = readCell g r c) \<and>
           g'\<lparr>state := state g\<rparr> = g \<and>
           resetPlayerObstacles g' = Inr g'"
proof -
  let ?g' = "g\<lparr>state := resetMatrix (N g) (state g)\<rparr>"
  have a: "resetPlayerObstacles g = Inr ?g'"
    by (rule resetPlayerObstacles_closed[OF assms])
  have b: "\<forall>r c. isInside g r c \<longrightarrow>
              readCell ?g' r c =
                (if kindAt g r c PlayerObstacle then Inr (Some (cellCode Empty)) else readCell g r c)"
    by (auto simp: kindAt_def isInside_def readCell_def resetMatrix_def split: option.splits)
  have c: "\<forall>r c. \<not> isInside g r c \<longrightarrow> readCell ?g' r c = readCell g r c"
    by (auto simp: isInside_def readCell_def resetMatrix_def split: option.splits)
  have d: "resetPlayerObstacles ?g' = Inr ?g'"
    using resetPlayerObstacles_closed[OF wfGrid_reset[OF assms]]
    by (simp add: resetMatrix_idem)
  show ?thesis using a b c d by simp
qed

lemma wfGrid_newGame: "wfGrid newGame"
  by (auto simp: wfGrid_def kindAt_def isInside_def readCell_def newGame_def emptyMatrix_def fixedObstacles_def)

text \<open>
  C8. For a grid whose cells hold 0, 1 or 2 and an in-grid cell \<open>(r, c)\<close>, \<open>toggleCell\<close>
  returns without raising. With the cover off (edit mode) a fixed obstacle becomes empty,
  an empty cell becomes a fixed obstacle and a player obstacle becomes empty; with the
  cover on (play mode) an empty cell becomes a player obstacle, a player obstacle becomes
  empty and a fixed obstacle leaves the game as it was. Every other cell reads as before,
  and no field but \<open>state\<close> changes.
\<close>

theorem toggleCell_cycle:
  assumes "wfGrid g" and "isInside g r c"
  shows "\<exists>g'. toggleCell g r c = Inr g' \<and>
     (\<not> coverVisible g \<longrightarrow>
        (kindAt g r c FixedObstacle \<longrightarrow> kindAt g' r c Empty) \<and>
        (kindAt g r c Empty \<longrightarrow> kindAt g' r c FixedObstacle) \<and>
        (kindAt g r c PlayerObstacle \<longrightarrow> kindAt g' r c Empty)) \<and>
     (coverVisible g \<longrightarrow>
        (kindAt g r c Empty \<longrightarrow> kindAt g' r c PlayerObstacle) \<and>
        (kindAt g r c PlayerObstacle \<longrightarrow> kindAt g' r c Empty) \<and>
        (kindAt g r c FixedObstacle \<longrightarrow> g' = g)) \<and>
     (\<forall>r' c'. (r', c') \<noteq> (r, c) \<longrightarrow> readCell g' r' c' = readCell g r' c') \<and>
     g'\<lparr>state := state g\<rparr> = g"
proof -
  from assms have k: "kindAt g r c Empty \<or> kindAt g r c PlayerObstacle \<or> kindAt g r c FixedObstacle"
    by (simp add: wfGrid_def)
  then obtain rw where rw: "state g r = Some rw"
    by (auto simp: kindAt_def readCell_def split: option.splits)
  from k rw have v: "rw c = Some 0 \<or> rw c = Some 1 \<or> rw c = Some 2"
    by (auto simp: kindAt_def readCell_def)
  show ?thesis
    using rw v
    by (cases "coverVisible g")
       (auto simp: toggleCell_def writeCell_def readCell_def kindAt_def)
qed

lemma wfGrid_playGame: "wfGrid playGame"
  by (auto simp: wfGrid_def kindAt_def isInside_def readCell_def playGame_def newGame_def
        emptyMatrix_def fixedObstacles_def)

theorem toggleCell_cycle_witness:
  "wfGrid newGame \<and> isInside newGame 3 6 \<and> \<not> coverVisible newGame \<and>
   kindAt newGame 3 6 FixedObstacle \<and> kindAt newGame 3 5 Empty \<and>
   (\<exists>g'. toggleCell newGame 3 6 = Inr g' \<and> kindAt g' 3 6 Empty \<and> kindAt g' 3 5 Empty) \<and>
   (\<exists>g'. toggleCell newGame 3 5 = Inr g' \<and> kindAt g' 3 5 FixedObstacle) \<and>
   wfGrid playGame \<and> coverVisible playGame \<and>
   kindAt playGame 3 2 PlayerObstacle \<and> kindAt playGame 3 6 FixedObstacle \<and>
   kindAt playGame 3 3 Empty \<and>
   (\<exists>g'. toggleCell playGame 3 2 = Inr g' \<and> kindAt g' 3 2 Empty) \<and>
   (\<exists>g'. toggleCell playGame 3 3 = Inr g' \<and> kindAt g' 3 3 PlayerObstacle) \<and>
   toggleCell playGame 3 6 = Inr playGame"
proof -
  have n: "isInside newGame 3 6" "isInside newGame 3 5" "\<not> coverVisible newGame"
      "kindAt newGame 3 6 FixedObstacle" "kindAt newGame 3 5 Empty"
    by (simp_all add: isInside_def kindAt_def readCell_def newGame_def emptyMatrix_def
          fixedObstacles_def)
  have p: "isInside playGame 3 2" "isInside playGame 3 3" "isInside playGame 3 6"
      "coverVisible playGame" "kindAt playGame 3 2 PlayerObstacle"
      "kindAt playGame 3 6 FixedObstacle" "kindAt playGame 3 3 Empty"
    by (simp_all add: isInside_def kindAt_def readCell_def playGame_def newGame_def)
  have a: "\<exists>g'. toggleCell newGame 3 6 = Inr g' \<and> kindAt g' 3 6 Empty \<and> kindAt g' 3 5 Empty"
    using toggleCell_cycle[OF wfGrid_newGame n(1)] n(3,4,5)
    by (auto simp: kindAt_def)
  have b: "\<exists>g'. toggleCell newGame 3 5 = Inr g' \<and> kindAt g' 3 5 FixedObstacle"
    using toggleCell_cycle[OF wfGrid_newGame n(2)] n(3,5) by auto
  have c: "\<exists>g'. toggleCell playGame 3 2 = Inr g' \<and> kindAt g' 3 2 Empty"
    using toggleCell_cycle[OF wfGrid_playGame p(1)] p(4,5) by auto
  have d: "\<exists>g'. toggleCell playGame 3 3 = Inr g' \<and> kindAt g' 3 3 PlayerObstacle"
    using toggleCell_cycle[OF wfGrid_playGame p(2)] p(4,7) by auto
  have e: "toggleCell playGame 3 6 = Inr playGame"
    using toggleCell_cycle[OF wfGrid_playGame p(3)] p(4,6) by auto
  show ?thesis
    using wfGrid_newGame wfGrid_playGame n p a b c d e by simp
qed

theorem resetPlayerObstacles_spec_witness:
  "wfGrid playGame \<and> kindAt playGame 3 2 PlayerObstacle \<and> kindAt playGame 3 6 FixedObstacle \<and>
   (\<exists>g'. resetPlayerObstacles playGame = Inr g' \<and> kindAt g' 3 2 Empty \<and>
          kindAt g' 3 6 FixedObstacle \<and> resetPlayerObstacles g' = Inr g')"
proof -
  have p: "isInside playGame 3 2" "isInside playGame 3 6"
      "kindAt playGame 3 2 PlayerObstacle" "kindAt playGame 3 6 FixedObstacle"
    by (simp_all add: isInside_def kindAt_def readCell_def playGame_def newGame_def)
  have q: "\<not> kindAt playGame 3 6 PlayerObstacle"
    by (simp add: kindAt_def readCell_def playGame_def newGame_def)
  show ?thesis
    using resetPlayerObstacles_spec[OF wfGrid_playGame] p q wfGrid_playGame
    by (auto simp: kindAt_def)
qed

section \<open>Signal decoder: properties\<close>

lemma toggleCell_total:
  assumes "wfGrid g" and "isInside g r c"
  shows "\<exists>g'. toggleCell g r c = Inr g'"
proof -
  from assms have "kindAt g r c Empty \<or> kindAt g r c PlayerObstacle \<or> kindAt g r c FixedObstacle"
    by (simp add: wfGrid_def)
  then show ?thesis
    by (auto simp: toggleCell_def writeCell_def readCell_def kindAt_def split: option.splits)
qed

lemma toggleCell_signalBuffer:
  "toggleCell g r c = Inr g' \<Longrightarrow>
   toggleCell (g\<lparr>signalBuffer := bf\<rparr>) r c = Inr (g'\<lparr>signalBuffer := bf\<rparr>)"
  by (auto simp: toggleCell_def writeCell_def readCell_def split: sum.splits option.splits if_splits)

lemma first_coordinate_signal:
  assumes "sig \<noteq> 9"
    and "\<forall>x \<in> set (signalBuffer g). signal x \<noteq> 9 \<longrightarrow> ts - timestamp x > signalTimeoutMs g"
  shows "processSignal g sig ts = Inr ([], g\<lparr>signalBuffer := [\<lparr>signal = sig, timestamp = ts\<rparr>]\<rparr>)"
proof -
  have "filter (\<lambda>item. ts - timestamp item \<le> signalTimeoutMs g \<and> signal item \<noteq> 9) (signalBuffer g) = []"
    using assms(2) by (auto simp: filter_empty_conv)
  then show ?thesis
    using assms(1) by (simp add: processSignal_def Let_def)
qed

text \<open>
  C3. Take a grid whose cells hold 0, 1 or 2, a window that is not negative and a buffer
  in which no coordinate signal is within the window of \<open>t1\<close> (none is waiting for a
  partner). Two coordinate signals \<open>a\<close> at \<open>t1\<close> and \<open>b\<close> at \<open>t2\<close>, both in 1..8 and
  at most \<open>N\<close>, are fed in this order. If \<open>0 \<le> t2 - t1\<close> and the gap is within the window,
  the only command is \<open>ToggleCell (a - 1) (b - 1)\<close>, the grid is the one \<open>toggleCell\<close>
  returns and the buffer is empty. If the gap exceeds the window, there is no command, the
  grid is untouched and the buffer holds the later signal and nothing else.
\<close>

theorem coordinate_pairing:
  assumes "wfGrid g"
    and "1 \<le> a" "a \<le> 8" "a \<le> N g" "1 \<le> b" "b \<le> 8" "b \<le> N g"
    and "0 \<le> signalTimeoutMs g"
    and "\<forall>x \<in> set (signalBuffer g). signal x \<noteq> 9 \<longrightarrow> t1 - timestamp x > signalTimeoutMs g"
  shows "(0 \<le> t2 - t1 \<and> t2 - t1 \<le> signalTimeoutMs g \<longrightarrow>
            (\<exists>gt. toggleCell g (a - 1) (b - 1) = Inr gt \<and>
                  runEvents g [Signal a t1, Signal b t2] =
                    Inr ([ToggleCell (a - 1) (b - 1)], gt\<lparr>signalBuffer := []\<rparr>))) \<and>
         (t2 - t1 > signalTimeoutMs g \<longrightarrow>
            runEvents g [Signal a t1, Signal b t2] =
              Inr ([], g\<lparr>signalBuffer := [\<lparr>signal = b, timestamp = t2\<rparr>]\<rparr>))"
proof -
  let ?g1 = "g\<lparr>signalBuffer := [\<lparr>signal = a, timestamp = t1\<rparr>]\<rparr>"
  have a9: "a \<noteq> 9" and b9: "b \<noteq> 9" using assms by auto
  have s1: "processSignal g a t1 = Inr ([], ?g1)"
    by (rule first_coordinate_signal[OF a9 assms(9)])
  have inside: "isInside g (a - 1) (b - 1)"
    using assms by (simp add: isInside_def)
  obtain gt where gt: "toggleCell g (a - 1) (b - 1) = Inr gt"
    using toggleCell_total[OF assms(1) inside] by blast
  have near: "runEvents g [Signal a t1, Signal b t2] =
                Inr ([ToggleCell (a - 1) (b - 1)], gt\<lparr>signalBuffer := []\<rparr>)"
    if w: "0 \<le> t2 - t1" "t2 - t1 \<le> signalTimeoutMs g"
  proof -
    have tg: "toggleCell (g\<lparr>signalBuffer := [\<lparr>signal = a, timestamp = t1\<rparr>, \<lparr>signal = b, timestamp = t2\<rparr>]\<rparr>)
                (a - 1) (b - 1)
              = Inr (gt\<lparr>signalBuffer := [\<lparr>signal = a, timestamp = t1\<rparr>, \<lparr>signal = b, timestamp = t2\<rparr>]\<rparr>)"
      by (rule toggleCell_signalBuffer[OF gt])
    have s2: "processSignal ?g1 b t2 = Inr ([ToggleCell (a - 1) (b - 1)], gt\<lparr>signalBuffer := []\<rparr>)"
      using a9 b9 w assms(2-7) tg by (simp add: processSignal_def Let_def)
    show ?thesis by (simp add: s1 s2)
  qed
  have far: "runEvents g [Signal a t1, Signal b t2] =
               Inr ([], g\<lparr>signalBuffer := [\<lparr>signal = b, timestamp = t2\<rparr>]\<rparr>)"
    if w: "t2 - t1 > signalTimeoutMs g"
  proof -
    have s2: "processSignal ?g1 b t2 = Inr ([], g\<lparr>signalBuffer := [\<lparr>signal = b, timestamp = t2\<rparr>]\<rparr>)"
      using b9 w by (simp add: processSignal_def Let_def)
    show ?thesis by (simp add: s1 s2)
  qed
  show ?thesis using gt near far by simp
qed

theorem coordinate_pairing_witness:
  "(\<exists>gt. toggleCell newGame 2 4 = Inr gt \<and> kindAt gt 2 4 FixedObstacle \<and>
      runEvents newGame [Signal 3 0, Signal 5 200] = Inr ([ToggleCell 2 4], gt\<lparr>signalBuffer := []\<rparr>)) \<and>
   runEvents newGame [Signal 3 0, Signal 5 4000] =
     Inr ([], newGame\<lparr>signalBuffer := [\<lparr>signal = 5, timestamp = 4000\<rparr>]\<rparr>)"
proof -
  have h: "(1::int) \<le> 3" "(3::int) \<le> 8" "3 \<le> N newGame" "(1::int) \<le> 5" "(5::int) \<le> 8"
      "5 \<le> N newGame" "0 \<le> signalTimeoutMs newGame"
      "\<forall>x \<in> set (signalBuffer newGame). signal x \<noteq> 9 \<longrightarrow> 0 - timestamp x > signalTimeoutMs newGame"
    by (simp_all add: newGame_def)
  have w: "signalTimeoutMs newGame = 3000" by (simp add: newGame_def)
  have k: "toggleCell newGame 2 4 = Inr gt \<Longrightarrow> kindAt gt 2 4 FixedObstacle" for gt
    by (auto simp: toggleCell_def writeCell_def readCell_def kindAt_def newGame_def
          emptyMatrix_def fixedObstacles_def)
  show ?thesis
    using coordinate_pairing[OF wfGrid_newGame h, of 200]
          coordinate_pairing[OF wfGrid_newGame h, of 4000] w k
    by auto
qed

text \<open>
  C4. The claim that a coordinate signal leaves every buffered 9 in place fails on the
  code: the pruning filter of the coordinate branch keeps an entry only if it is within
  the window and is not a 9. After a 9 at time 0 (buffered, timer armed) the signal 3 at
  time 100 leaves a buffer that holds the 3 alone.
\<close>

theorem coordinate_signal_drops_buffered_9:
  "runEvents newGame [Signal 9 0, Signal 3 100] =
     Inr ([], newGame\<lparr>signalBuffer := [\<lparr>signal = 3, timestamp = 100\<rparr>], signal9Timer := True\<rparr>)"
  by (simp add: processSignal_def newGame_def Let_def)

text \<open>
  C2. The claim that a 9 with no second 9 in its window always ends in one \<open>FireRay\<close>
  fails on the code: a 9 at time 0, the signal 3 at time 100 and then the window elapsing
  emit no command at all, because the 3 removed the buffered 9 and the callback of the timer
  finds no 9 to fire for.
\<close>

theorem single_9_lost_after_coordinate_signal:
  "runEvents newGame [Signal 9 0, Signal 3 100, WindowElapsed] =
     Inr ([], newGame\<lparr>signalBuffer := [\<lparr>signal = 3, timestamp = 100\<rparr>]\<rparr>)"
  by (simp add: processSignal_def signal9TimerFires_def newGame_def Let_def)

text \<open>
  With no signal between the 9 and the end of its window the decoder emits one
  \<open>FireRay\<close>; with a second 9 inside the window it emits one \<open>ResetObstacles\<close> and the
  callback of the cancelled timer runs nothing.
\<close>

lemma single_9_fires:
  assumes "\<forall>x \<in> set (signalBuffer g). signal x \<noteq> 9"
  shows "runEvents g [Signal 9 t0, WindowElapsed] = Inr ([FireRay], g\<lparr>signal9Timer := False\<rparr>)"
proof -
  have f: "filter (\<lambda>item. signal item = 9) (signalBuffer g) = []"
          "filter (\<lambda>item. signal item \<noteq> 9) (signalBuffer g) = signalBuffer g"
    using assms by (auto simp: filter_empty_conv filter_id_conv)
  have f2: "filter (\<lambda>item. signal item = 9 \<and> t0 - timestamp item \<le> signalTimeoutMs g) (signalBuffer g) = []"
    using assms by (auto simp: filter_empty_conv)
  show ?thesis
    by (simp add: processSignal_def signal9TimerFires_def Let_def f f2)
qed

lemma wfGrid_cong: "N g' = N g \<Longrightarrow> state g' = state g \<Longrightarrow> wfGrid g' = wfGrid g"
  by (simp add: wfGrid_def kindAt_def isInside_def readCell_def)

lemma double_9_resets:
  assumes "wfGrid g" and "\<forall>x \<in> set (signalBuffer g). signal x \<noteq> 9"
    and "t1 - t0 \<le> signalTimeoutMs g"
  shows "runEvents g [Signal 9 t0, Signal 9 t1, WindowElapsed] =
           Inr ([ResetObstacles], g\<lparr>state := resetMatrix (N g) (state g), signal9Timer := False\<rparr>)"
proof -
  have f: "filter (\<lambda>item. signal item \<noteq> 9) (signalBuffer g) = signalBuffer g"
    using assms(2) by (auto simp: filter_id_conv)
  have f2: "filter (\<lambda>item. signal item = 9 \<and> t0 - timestamp item \<le> signalTimeoutMs g) (signalBuffer g) = []"
    using assms(2) by (auto simp: filter_empty_conv)
  let ?g1 = "g\<lparr>signalBuffer := signalBuffer g @ [\<lparr>signal = 9, timestamp = t0\<rparr>], signal9Timer := True\<rparr>"
  have s1: "processSignal g 9 t0 = Inr ([], ?g1)"
    by (simp add: processSignal_def Let_def f2)
  let ?g2 = "g\<lparr>signalBuffer := signalBuffer g, signal9Timer := False\<rparr>"
  have r: "resetPlayerObstacles ?g2 = Inr (?g2\<lparr>state := resetMatrix (N ?g2) (state ?g2)\<rparr>)"
    by (rule resetPlayerObstacles_closed) (simp add: wfGrid_cong[of _ g] assms(1))
  have s2: "processSignal ?g1 9 t1 = Inr ([ResetObstacles], g\<lparr>state := resetMatrix (N g) (state g), signal9Timer := False\<rparr>)"
    using assms(3) r by (simp add: processSignal_def Let_def f)
  show ?thesis
    by (simp add: s1 s2 signal9TimerFires_def)
qed

text \<open>
  What the coordinate branch does to the command track in general: after any signal other
  than 9 the buffer holds no 9 at all, whatever it held before.
\<close>

lemma toggleCell_keeps_signalBuffer:
  "toggleCell g0 r c = Inr g1 \<Longrightarrow> signalBuffer g1 = signalBuffer g0"
  by (auto simp: toggleCell_def writeCell_def split: sum.splits option.splits if_splits)

lemma coordinate_signal_leaves_no_9:
  assumes sig: "sig \<noteq> 9" and run: "processSignal g sig ts = Inr (cmds, g')"
  shows "\<forall>x \<in> set (signalBuffer g'). signal x \<noteq> 9"
proof -
  define g1 where
    "g1 = g\<lparr>signalBuffer :=
             filter (\<lambda>item. ts - timestamp item \<le> signalTimeoutMs g \<and> signal item \<noteq> 9)
               (signalBuffer g)\<rparr>"
  define g2 where "g2 = g1\<lparr>signalBuffer := signalBuffer g1 @ [\<lparr>signal = sig, timestamp = ts\<rparr>]\<rparr>"
  define cs where "cs = filter (\<lambda>item. signal item \<noteq> 9) (signalBuffer g2)"
  define first where "first = cs ! (length cs - 2)"
  define second where "second = cs ! (length cs - 1)"
  define timeDiff where "timeDiff = timestamp second - timestamp first"
  define r where "r = signal first - 1"
  define c where "c = signal second - 1"
  have E: "processSignal g sig ts =
     (if length cs \<ge> 2 then
        (if timeDiff \<le> signalTimeoutMs g2 \<and> timeDiff \<ge> 0 then
           (if r \<ge> 0 \<and> r < N g2 \<and> c \<ge> 0 \<and> c < N g2 then
              (case toggleCell g2 r c of
                 Inl e \<Rightarrow> Inl e
               | Inr g3 \<Rightarrow>
                   Inr ([ToggleCell r c],
                        g3\<lparr>signalBuffer := filter (\<lambda>item. signal item = 9) (signalBuffer g3)\<rparr>))
            else
              Inr ([], g2\<lparr>signalBuffer := filter (\<lambda>item. signal item = 9) (signalBuffer g2)\<rparr>))
         else
           Inr ([], g2\<lparr>signalBuffer :=
                         filter (\<lambda>item. signal item = 9) (signalBuffer g2) @ [second]\<rparr>))
      else Inr ([], g2))"
    unfolding processSignal_def Let_def c_def r_def timeDiff_def second_def first_def cs_def
      g2_def g1_def
    using sig by (simp only: if_False)
  have no9: "\<forall>x \<in> set (signalBuffer g2). signal x \<noteq> 9"
    using sig by (auto simp: g2_def g1_def)
  then have cs: "cs = signalBuffer g2"
    and none: "filter (\<lambda>item. signal item = 9) (signalBuffer g2) = []"
    by (auto simp: cs_def filter_id_conv filter_empty_conv)
  have sec: "signal second \<noteq> 9" if "length cs \<ge> 2"
  proof -
    from that have "second \<in> set cs" unfolding second_def by (intro nth_mem) simp
    then show ?thesis using no9 by (simp add: cs)
  qed
  have "signalBuffer g' = [] \<or> signalBuffer g' = [second] \<and> length cs \<ge> 2
        \<or> signalBuffer g' = signalBuffer g2"
  proof (cases "length cs \<ge> 2")
    case False
    with run show ?thesis by (simp add: E)
  next
    case len: True
    show ?thesis
    proof (cases "timeDiff \<le> signalTimeoutMs g2 \<and> timeDiff \<ge> 0")
      case False
      with run len have "g' = g2\<lparr>signalBuffer := [second]\<rparr>"
        by (simp add: E none)
      then show ?thesis using len by simp
    next
      case near: True
      show ?thesis
      proof (cases "r \<ge> 0 \<and> r < N g2 \<and> c \<ge> 0 \<and> c < N g2")
        case False
        with run len near have "g' = g2\<lparr>signalBuffer := []\<rparr>"
          by (simp add: E none)
        then show ?thesis by simp
      next
        case True
        with run len near obtain g3 where
          t: "toggleCell g2 r c = Inr g3"
          and g: "g' = g3\<lparr>signalBuffer := filter (\<lambda>item. signal item = 9) (signalBuffer g3)\<rparr>"
          by (auto simp: E split: sum.splits)
        from toggleCell_keeps_signalBuffer[OF t] g show ?thesis by (simp add: none)
      qed
    qed
  qed
  then show ?thesis using no9 sec by auto
qed

section \<open>Ray tracer: properties\<close>

text \<open>
  An invariant rule for the loop: \<open>I\<close> holds of the variables at every test of the loop
  condition, \<open>Q\<close> of the result at each of the five returns.
\<close>

lemma traceLoop_rule:
  assumes STEP: "\<And>steps r c d visited pth cellVal.
      I steps r c d visited pth \<Longrightarrow> steps < maxSteps \<Longrightarrow>
      isInside g (r + fst (dirToDelta d)) (c + snd (dirToDelta d)) \<Longrightarrow>
      (r + fst (dirToDelta d), c + snd (dirToDelta d), d) \<notin> visited \<Longrightarrow>
      readCell g (r + fst (dirToDelta d)) (c + snd (dirToDelta d)) = Inr cellVal \<Longrightarrow>
      I (steps + 1) (r + fst (dirToDelta d)) (c + snd (dirToDelta d))
        (if cellVal = Some 1 \<or> cellVal = Some 2 then rotateCCW d else d)
        (insert (r + fst (dirToDelta d), c + snd (dirToDelta d), d) visited)
        (pth @ [\<lparr>entry_r = r + fst (dirToDelta d), entry_c = c + snd (dirToDelta d),
                 dirBeforeCell = d, cellType = cellTypeOf cellVal\<rparr>])"
    and EXIT: "\<And>steps r c d visited pth info.
      I steps r c d visited pth \<Longrightarrow> steps < maxSteps \<Longrightarrow>
      \<not> isInside g (r + fst (dirToDelta d)) (c + snd (dirToDelta d)) \<Longrightarrow>
      isInside g r c \<Longrightarrow>
      computeExitSideAndIndex g r c (r + fst (dirToDelta d)) (c + snd (dirToDelta d)) = Inr info \<Longrightarrow>
      Q (exitResult g info pth)"
    and NEVER: "\<And>steps r c d visited pth.
      I steps r c d visited pth \<Longrightarrow> steps < maxSteps \<Longrightarrow>
      \<not> isInside g (r + fst (dirToDelta d)) (c + snd (dirToDelta d)) \<Longrightarrow>
      \<not> isInside g r c \<Longrightarrow>
      Q \<lparr>outcome = LOSE, exitInfo = None, path = pth, reason = NeverEntered\<rparr>"
    and LOOP: "\<And>steps r c d visited pth.
      I steps r c d visited pth \<Longrightarrow> steps < maxSteps \<Longrightarrow>
      isInside g (r + fst (dirToDelta d)) (c + snd (dirToDelta d)) \<Longrightarrow>
      (r + fst (dirToDelta d), c + snd (dirToDelta d), d) \<in> visited \<Longrightarrow>
      Q \<lparr>outcome = LOSE, exitInfo = None, path = pth, reason = LoopDetected\<rparr>"
    and LIMIT: "\<And>steps r c d visited pth.
      I steps r c d visited pth \<Longrightarrow> \<not> steps < maxSteps \<Longrightarrow>
      Q \<lparr>outcome = LOSE, exitInfo = None, path = pth, reason = StepLimit\<rparr>"
  shows "I steps r c d visited pth \<Longrightarrow> traceLoop g steps r c d visited pth = Inr res \<Longrightarrow> Q res"
proof (induction "maxSteps - steps" arbitrary: steps r c d visited pth)
  case 0
  then have n: "\<not> steps < maxSteps" by simp
  with "0.prems"(2) have "res = \<lparr>outcome = LOSE, exitInfo = None, path = pth, reason = StepLimit\<rparr>"
    by (subst (asm) traceLoop.simps) simp
  with LIMIT[OF "0.prems"(1) n] show ?case by simp
next
  case (Suc n)
  then have lt: "steps < maxSteps" by simp
  let ?nr = "r + fst (dirToDelta d)" and ?nc = "c + snd (dirToDelta d)"
  show ?case
  proof (cases "isInside g ?nr ?nc")
    case False
    show ?thesis
    proof (cases "isInside g r c")
      case True
      from Suc.prems(2) lt False True
      obtain info where "computeExitSideAndIndex g r c ?nr ?nc = Inr info"
        and "res = exitResult g info pth"
        by (subst (asm) traceLoop.simps) (auto simp: Let_def split: sum.splits)
      with EXIT[OF Suc.prems(1) lt False True] show ?thesis by simp
    next
      case nin: False
      from Suc.prems(2) lt False nin
      have "res = \<lparr>outcome = LOSE, exitInfo = None, path = pth, reason = NeverEntered\<rparr>"
        by (subst (asm) traceLoop.simps) (simp add: Let_def)
      with NEVER[OF Suc.prems(1) lt False nin] show ?thesis by simp
    qed
  next
    case True
    show ?thesis
    proof (cases "(?nr, ?nc, d) \<in> visited")
      case seen: True
      from Suc.prems(2) lt True seen
      have "res = \<lparr>outcome = LOSE, exitInfo = None, path = pth, reason = LoopDetected\<rparr>"
        by (subst (asm) traceLoop.simps) (simp add: Let_def)
      with LOOP[OF Suc.prems(1) lt True seen] show ?thesis by simp
    next
      case new: False
      from Suc.prems(2) lt True new
      obtain cellVal where rd: "readCell g ?nr ?nc = Inr cellVal"
        and rec: "traceLoop g (steps + 1) ?nr ?nc
                  (if cellVal = Some 1 \<or> cellVal = Some 2 then rotateCCW d else d)
                  (insert (?nr, ?nc, d) visited)
                  (pth @ [\<lparr>entry_r = ?nr, entry_c = ?nc, dirBeforeCell = d,
                           cellType = cellTypeOf cellVal\<rparr>]) = Inr res"
        by (subst (asm) traceLoop.simps) (auto simp: Let_def split: sum.splits)
      have m: "n = maxSteps - (steps + 1)" using Suc.hyps(2) by simp
      show ?thesis
        by (rule Suc.hyps(1)[OF m STEP[OF Suc.prems(1) lt True new rd] rec])
    qed
  qed
qed

lemma pathInv_init: "\<not> isInside g r c \<Longrightarrow> pathInv g (r, c, d) 0 r c d {} []"
  by (simp add: pathInv_def)

lemma entryStartOutside_outside:
  "entryStartOutside g = Inr (r, c, d) \<Longrightarrow> \<not> isInside g r c"
  by (auto simp: entryStartOutside_def isInside_def Let_def split: if_splits)

lemma pathInv_step:
  assumes inv: "pathInv g s0 steps r c d visited pth"
    and lt: "steps < maxSteps"
    and ins: "isInside g (r + fst (dirToDelta d)) (c + snd (dirToDelta d))"
    and new: "(r + fst (dirToDelta d), c + snd (dirToDelta d), d) \<notin> visited"
    and rd: "readCell g (r + fst (dirToDelta d)) (c + snd (dirToDelta d)) = Inr cellVal"
  shows "pathInv g s0 (steps + 1) (r + fst (dirToDelta d)) (c + snd (dirToDelta d))
           (if cellVal = Some 1 \<or> cellVal = Some 2 then rotateCCW d else d)
           (insert (r + fst (dirToDelta d), c + snd (dirToDelta d), d) visited)
           (pth @ [\<lparr>entry_r = r + fst (dirToDelta d), entry_c = c + snd (dirToDelta d),
                    dirBeforeCell = d, cellType = cellTypeOf cellVal\<rparr>])"
proof -
  define e where "e = \<lparr>entry_r = r + fst (dirToDelta d), entry_c = c + snd (dirToDelta d),
                    dirBeforeCell = d, cellType = cellTypeOf cellVal\<rparr>"
  have ke: "key e = (r + fst (dirToDelta d), c + snd (dirToDelta d), d)"
    by (simp add: key_def e_def)
  have da: "dirAfterCell g e = (if cellVal = Some 1 \<or> cellVal = Some 2 then rotateCCW d else d)"
    using rd by (simp add: dirAfterCell_def e_def)
  have len: "length (pth @ [e]) = steps + 1" "steps + 1 \<le> maxSteps"
    using inv lt by (simp_all add: pathInv_def)
  have vis: "insert (key e) visited = key ` set (pth @ [e])"
    using inv by (auto simp: pathInv_def)
  have dist: "distinct (map key (pth @ [e]))"
    using inv new ke by (auto simp: pathInv_def)
  have allin: "\<forall>x \<in> set (pth @ [e]). isInside g (entry_r x) (entry_c x)"
    using inv ins by (auto simp: pathInv_def e_def)
  have lst: "entry_r (last (pth @ [e])) = r + fst (dirToDelta d)"
            "entry_c (last (pth @ [e])) = c + snd (dirToDelta d)"
    by (simp_all add: e_def)
  have chain: "follows g ((pth @ [e]) ! i) ((pth @ [e]) ! (i + 1))" if i: "i + 1 < length (pth @ [e])" for i
  proof (cases "i + 1 < length pth")
    case True
    then show ?thesis using inv by (simp add: pathInv_def nth_append)
  next
    case False
    with i have il: "i + 1 = length pth" by simp
    then have ne: "pth \<noteq> []" by auto
    have i: "i = length pth - 1" using il by simp
    have a: "(pth @ [e]) ! i = last pth"
      using ne by (simp add: i nth_append last_conv_nth)
    have b: "(pth @ [e]) ! (i + 1) = e"
      using il by (simp add: nth_append)
    have "follows g (last pth) e"
      using inv ne by (simp add: pathInv_def follows_def e_def)
    then show ?thesis by (simp only: a b)
  qed
  show ?thesis
    unfolding pathInv_def e_def[symmetric] ke[symmetric] da[symmetric]
    using len vis dist allin lst chain by simp
qed

lemma traceLoop_final:
  assumes inv: "pathInv g s0 steps r c d visited pth"
    and res: "traceLoop g steps r c d visited pth = Inr res"
  shows "\<exists>steps r c d visited.
           pathInv g s0 steps r c d visited (path res) \<and> finalCase g res steps r c d visited"
    (is "?Q res")
proof (rule traceLoop_rule[where I = "pathInv g s0" and Q = ?Q and g = g, OF _ _ _ _ _ inv res])
  fix steps r c d visited pth cellVal
  assume "pathInv g s0 steps r c d visited pth" "steps < maxSteps"
    "isInside g (r + fst (dirToDelta d)) (c + snd (dirToDelta d))"
    "(r + fst (dirToDelta d), c + snd (dirToDelta d), d) \<notin> visited"
    "readCell g (r + fst (dirToDelta d)) (c + snd (dirToDelta d)) = Inr cellVal"
  then show "pathInv g s0 (steps + 1) (r + fst (dirToDelta d)) (c + snd (dirToDelta d))
        (if cellVal = Some 1 \<or> cellVal = Some 2 then rotateCCW d else d)
        (insert (r + fst (dirToDelta d), c + snd (dirToDelta d), d) visited)
        (pth @ [\<lparr>entry_r = r + fst (dirToDelta d), entry_c = c + snd (dirToDelta d),
                 dirBeforeCell = d, cellType = cellTypeOf cellVal\<rparr>])"
    by (rule pathInv_step)
next
  fix steps r c d visited pth info
  assume a: "pathInv g s0 steps r c d visited pth" "steps < maxSteps"
    "\<not> isInside g (r + fst (dirToDelta d)) (c + snd (dirToDelta d))" "isInside g r c"
    "computeExitSideAndIndex g r c (r + fst (dirToDelta d)) (c + snd (dirToDelta d)) = Inr info"
  have "pathInv g s0 steps r c d visited (path (exitResult g info pth)) \<and>
        finalCase g (exitResult g info pth) steps r c d visited"
    using a by (simp add: finalCase_def exitResult_def Let_def)
  then show "?Q (exitResult g info pth)" by blast
next
  fix steps r c d visited pth
  assume a: "pathInv g s0 steps r c d visited pth" "steps < maxSteps"
    "\<not> isInside g (r + fst (dirToDelta d)) (c + snd (dirToDelta d))" "\<not> isInside g r c"
  let ?res = "\<lparr>outcome = LOSE, exitInfo = None, path = pth, reason = NeverEntered\<rparr>"
  have "pathInv g s0 steps r c d visited (path ?res) \<and> finalCase g ?res steps r c d visited"
    using a by (simp add: finalCase_def)
  then show "?Q ?res" by blast
next
  fix steps r c d visited pth
  assume a: "pathInv g s0 steps r c d visited pth" "steps < maxSteps"
    "isInside g (r + fst (dirToDelta d)) (c + snd (dirToDelta d))"
    "(r + fst (dirToDelta d), c + snd (dirToDelta d), d) \<in> visited"
  let ?res = "\<lparr>outcome = LOSE, exitInfo = None, path = pth, reason = LoopDetected\<rparr>"
  have "pathInv g s0 steps r c d visited (path ?res) \<and> finalCase g ?res steps r c d visited"
    using a by (simp add: finalCase_def)
  then show "?Q ?res" by blast
next
  fix steps r c d visited pth
  assume a: "pathInv g s0 steps r c d visited pth" "\<not> steps < maxSteps"
  then have e: "steps = maxSteps" by (simp add: pathInv_def)
  let ?res = "\<lparr>outcome = LOSE, exitInfo = None, path = pth, reason = StepLimit\<rparr>"
  have "pathInv g s0 steps r c d visited (path ?res) \<and> finalCase g ?res steps r c d visited"
    using a e by (simp add: finalCase_def)
  then show "?Q ?res" by blast
qed

lemma traceRay_final:
  assumes "traceRay g = Inr res"
  shows "\<exists>r0 c0 d0 steps r c d visited.
           entryStartOutside g = Inr (r0, c0, d0) \<and>
           pathInv g (r0, c0, d0) steps r c d visited (path res) \<and>
           finalCase g res steps r c d visited"
proof -
  from assms obtain r0 c0 d0 where s: "entryStartOutside g = Inr (r0, c0, d0)"
    and t: "traceLoop g 0 r0 c0 d0 {} [] = Inr res"
    by (auto simp: traceRay_def split: sum.splits)
  have "pathInv g (r0, c0, d0) 0 r0 c0 d0 {} []"
    by (rule pathInv_init[OF entryStartOutside_outside[OF s]])
  from traceLoop_final[OF this t] s show ?thesis by blast
qed


lemmas trace_eval = traceRay_def entryStartOutside_def traceLoop.simps maxSteps_def
  isInside_def readCell_def cellTypeOf_def computeExitSideAndIndex_def exitResult_def

lemma traceRay_newGame: "traceRay newGame = Inr newGameResult"
  by (simp add: trace_eval newGame_def emptyMatrix_def fixedObstacles_def newGameResult_def)



lemma traceRay_neverGame: "traceRay neverGame = Inr neverGameResult"
  by (simp add: trace_eval neverGame_def newGame_def neverGameResult_def)



text \<open>
  C10. Every entry of the returned path has in-grid coordinates, the path has at most 512
  entries, and no two entries have the same row, column and direction on entry.
\<close>

theorem path_inside_bounded_distinct:
  assumes "traceRay g = Inr res"
  shows "(\<forall>e \<in> set (path res).
            0 \<le> entry_r e \<and> entry_r e < N g \<and> 0 \<le> entry_c e \<and> entry_c e < N g) \<and>
         length (path res) \<le> 512 \<and>
         distinct (map (\<lambda>e. (entry_r e, entry_c e, dirBeforeCell e)) (path res))"
proof -
  from traceRay_final[OF assms]
  obtain s0 steps r c d visited where "pathInv g s0 steps r c d visited (path res)"
    by blast
  then have a: "\<forall>e \<in> set (path res). isInside g (entry_r e) (entry_c e)"
    and b: "length (path res) \<le> maxSteps"
    and c: "distinct (map key (path res))"
    by (auto simp: pathInv_def)
  have k: "key = (\<lambda>e. (entry_r e, entry_c e, dirBeforeCell e))"
    by (simp add: fun_eq_iff key_def)
  show ?thesis
    using a b c by (simp add: isInside_def maxSteps_def k)
qed

theorem path_inside_bounded_distinct_witness:
  "traceRay newGame = Inr newGameResult \<and> length (path newGameResult) = 10 \<and>
   list_all (\<lambda>e. 0 \<le> entry_r e \<and> entry_r e < N newGame \<and>
                  0 \<le> entry_c e \<and> entry_c e < N newGame) (path newGameResult) \<and>
   length (path newGameResult) \<le> 512 \<and>
   distinct (map (\<lambda>e. (entry_r e, entry_c e, dirBeforeCell e)) (path newGameResult))"
proof -
  have "length (path newGameResult) = 10" by (simp add: newGameResult_def)
  with path_inside_bounded_distinct[OF traceRay_newGame] traceRay_newGame
  show ?thesis unfolding list_all_iff by blast
qed

text \<open>
  C5. For two consecutive entries of the returned path: if the cell of the first holds a
  player obstacle or a fixed obstacle, the direction on entry of the second is
  \<open>rotateCCW\<close> of the direction on entry of the first; if it is empty, the direction is the
  same; the second cell is the neighbour of the first in that direction. \<open>rotateCCW\<close> is
  the cycle north, west, south, east, north.
\<close>

theorem rotation_rule:
  assumes "traceRay g = Inr res" and "i + 1 < length (path res)"
  shows "(kindAt g (entry_r (path res ! i)) (entry_c (path res ! i)) PlayerObstacle \<or>
          kindAt g (entry_r (path res ! i)) (entry_c (path res ! i)) FixedObstacle \<longrightarrow>
            dirBeforeCell (path res ! (i + 1)) = rotateCCW (dirBeforeCell (path res ! i))) \<and>
         (kindAt g (entry_r (path res ! i)) (entry_c (path res ! i)) Empty \<longrightarrow>
            dirBeforeCell (path res ! (i + 1)) = dirBeforeCell (path res ! i)) \<and>
         entry_r (path res ! (i + 1)) =
           entry_r (path res ! i) + fst (dirToDelta (dirBeforeCell (path res ! (i + 1)))) \<and>
         entry_c (path res ! (i + 1)) =
           entry_c (path res ! i) + snd (dirToDelta (dirBeforeCell (path res ! (i + 1)))) \<and>
         rotateCCW DirN = DirW \<and> rotateCCW DirW = DirS \<and>
         rotateCCW DirS = DirE \<and> rotateCCW DirE = DirN"
proof -
  from traceRay_final[OF assms(1)]
  obtain s0 steps r c d visited where "pathInv g s0 steps r c d visited (path res)"
    by blast
  with assms(2) have f: "follows g (path res ! i) (path res ! (i + 1))"
    by (simp add: pathInv_def)
  then show ?thesis
    by (auto simp: follows_def dirAfterCell_def kindAt_def)
qed

theorem rotation_rule_witness:
  "traceRay newGame = Inr newGameResult \<and> 6 + 1 < length (path newGameResult) \<and>
   kindAt newGame (entry_r (path newGameResult ! 6)) (entry_c (path newGameResult ! 6)) FixedObstacle \<and>
   dirBeforeCell (path newGameResult ! 6) = DirE \<and>
   dirBeforeCell (path newGameResult ! (6 + 1)) = rotateCCW (dirBeforeCell (path newGameResult ! 6)) \<and>
   0 + 1 < length (path newGameResult) \<and>
   kindAt newGame (entry_r (path newGameResult ! 0)) (entry_c (path newGameResult ! 0)) Empty \<and>
   dirBeforeCell (path newGameResult ! (0 + 1)) = dirBeforeCell (path newGameResult ! 0)"
proof -
  have len: "6 + 1 < length (path newGameResult)" "0 + 1 < length (path newGameResult)"
    by (simp_all add: newGameResult_def)
  have k: "kindAt newGame (entry_r (path newGameResult ! 6)) (entry_c (path newGameResult ! 6)) FixedObstacle"
    "kindAt newGame (entry_r (path newGameResult ! 0)) (entry_c (path newGameResult ! 0)) Empty"
    by (simp_all add: newGameResult_def kindAt_def readCell_def newGame_def emptyMatrix_def
          fixedObstacles_def)
  have d: "dirBeforeCell (path newGameResult ! 6) = DirE" by (simp add: newGameResult_def)
  have a: "dirBeforeCell (path newGameResult ! (6 + 1)) = rotateCCW (dirBeforeCell (path newGameResult ! 6))"
    using rotation_rule[OF traceRay_newGame len(1)] k(1) by blast
  have b: "dirBeforeCell (path newGameResult ! (0 + 1)) = dirBeforeCell (path newGameResult ! 0)"
    using rotation_rule[OF traceRay_newGame len(2)] k(2) by blast
  show ?thesis using traceRay_newGame len k d a b by blast
qed

lemma traceLoop_total:
  assumes "wfGrid g"
  shows "\<exists>res. traceLoop g steps r c d visited pth = Inr res"
proof (induction "maxSteps - steps" arbitrary: steps r c d visited pth)
  case 0
  then show ?case by (subst traceLoop.simps) simp
next
  case (Suc n)
  then have lt: "steps < maxSteps" by simp
  let ?nr = "r + fst (dirToDelta d)" and ?nc = "c + snd (dirToDelta d)"
  show ?case
  proof (cases "isInside g ?nr ?nc")
    case False
    then have "\<exists>info. computeExitSideAndIndex g r c ?nr ?nc = Inr info"
      by (auto simp: isInside_def computeExitSideAndIndex_def)
    with lt False show ?thesis
      by (subst traceLoop.simps) (auto simp: Let_def)
  next
    case True
    with assms obtain v where rd: "readCell g ?nr ?nc = Inr v"
      by (auto simp: wfGrid_def kindAt_def)
    have m: "n = maxSteps - (steps + 1)" using Suc.hyps(2) by simp
    from Suc.hyps(1)[OF m] lt True rd show ?thesis
      by (subst traceLoop.simps) (simp add: Let_def)
  qed
qed

text \<open>
  The step limit is reached: a ray that goes east through 512 empty cells it has not seen
  is stopped by the counter.
\<close>

lemma east_run_hits_step_limit:
  assumes "\<forall>j. c < j \<and> j \<le> c + int n \<longrightarrow> isInside g r j \<and> readCell g r j = Inr (Some 0)"
    and "\<forall>j. c < j \<longrightarrow> (r, j, DirE) \<notin> visited"
    and "steps + n = maxSteps"
  shows "\<exists>res. traceLoop g steps r c DirE visited pth = Inr res \<and> reason res = StepLimit"
  using assms
proof (induction n arbitrary: steps c visited pth)
  case 0
  then show ?case by (subst traceLoop.simps) simp
next
  case (Suc n)
  have lt: "steps < maxSteps" using Suc.prems(3) by simp
  have here: "isInside g r (c + 1)" "readCell g r (c + 1) = Inr (Some 0)"
    using Suc.prems(1) by simp_all
  have new: "(r, c + 1, DirE) \<notin> visited" using Suc.prems(2) by simp
  have a: "\<forall>j. c + 1 < j \<and> j \<le> c + 1 + int n \<longrightarrow> isInside g r j \<and> readCell g r j = Inr (Some 0)"
    using Suc.prems(1) by simp
  have b: "\<forall>j. c + 1 < j \<longrightarrow> (r, j, DirE) \<notin> insert (r, c + 1, DirE) visited"
    using Suc.prems(2) by simp
  have c: "steps + 1 + n = maxSteps" using Suc.prems(3) by simp
  from Suc.IH[OF a b c]
  obtain res where
    "traceLoop g (steps + 1) r (c + 1) DirE (insert (r, c + 1, DirE) visited)
       (pth @ [\<lparr>entry_r = r, entry_c = c + 1, dirBeforeCell = DirE,
                cellType = cellTypeOf (Some 0)\<rparr>]) = Inr res"
    and "reason res = StepLimit"
    by blast
  then show ?case
    using lt here new by (subst traceLoop.simps) (simp add: Let_def)
qed

lemma wfGrid_wideGame: "wfGrid wideGame"
  by (auto simp: wfGrid_def kindAt_def isInside_def readCell_def wideGame_def emptyMatrix_def)

lemma traceRay_wideGame: "\<exists>res. traceRay wideGame = Inr res \<and> reason res = StepLimit"
proof -
  have s: "entryStartOutside wideGame = Inr (3, -1, DirE)"
    by (simp add: entryStartOutside_def wideGame_def newGame_def)
  have a: "\<forall>j. -1 < j \<and> j \<le> -1 + int 512 \<longrightarrow>
             isInside wideGame 3 j \<and> readCell wideGame 3 j = Inr (Some 0)"
    by (auto simp: isInside_def readCell_def wideGame_def emptyMatrix_def)
  have b: "\<forall>j. -1 < j \<longrightarrow> (3, j, DirE) \<notin> {}" by simp
  have c: "0 + 512 = maxSteps" by (simp add: maxSteps_def)
  from east_run_hits_step_limit[OF a b c] show ?thesis
    by (simp add: traceRay_def s)
qed

text \<open>
  C7. For an entry side that is one of the four names and a grid whose cells hold 0, 1 or
  2, \<open>traceRay\<close> returns a result and raises nothing (the loop is a total function, its
  counter bounded by \<open>maxSteps = 512\<close>). The path has at most 512 entries, one for each
  completed iteration; the reason is the step limit exactly if all 512 iterations
  completed, and then the outcome is \<open>LOSE\<close> with no exit; the reason is that the ray never
  entered exactly if the first step from the start position is not in the grid, and then
  the outcome is \<open>LOSE\<close> with no exit and an empty path.
\<close>

theorem traceRay_terminates:
  assumes "side (entry (level g)) \<in> {''left'', ''right'', ''top'', ''bottom''}" and "wfGrid g"
  shows "\<exists>res r c d.
           entryStartOutside g = Inr (r, c, d) \<and> traceRay g = Inr res \<and>
           length (path res) \<le> maxSteps \<and> maxSteps = 512 \<and>
           (reason res = StepLimit \<longleftrightarrow> length (path res) = maxSteps) \<and>
           (length (path res) = maxSteps \<longrightarrow> outcome res = LOSE \<and> exitInfo res = None) \<and>
           (reason res = NeverEntered \<longleftrightarrow>
              \<not> isInside g (r + fst (dirToDelta d)) (c + snd (dirToDelta d))) \<and>
           (reason res = NeverEntered \<longrightarrow>
              outcome res = LOSE \<and> exitInfo res = None \<and> path res = [])"
proof -
  from assms(1) obtain r0 c0 d0 where s: "entryStartOutside g = Inr (r0, c0, d0)"
    by (auto simp: entryStartOutside_def Let_def)
  obtain res where t: "traceLoop g 0 r0 c0 d0 {} [] = Inr res"
    using traceLoop_total[OF assms(2)] by blast
  have tr: "traceRay g = Inr res" by (simp add: traceRay_def s t)
  have so: "\<not> isInside g r0 c0" by (rule entryStartOutside_outside[OF s])
  from traceRay_final[OF tr] s
  obtain steps r c d visited where
    inv: "pathInv g (r0, c0, d0) steps r c d visited (path res)"
    and fin: "finalCase g res steps r c d visited"
    by auto
  have len: "length (path res) = steps" "steps \<le> maxSteps"
    using inv by (simp_all add: pathInv_def)
  have emp: "path res = [] \<and> (r, c, d) = (r0, c0, d0)" if o: "\<not> isInside g r c"
  proof -
    have "path res = []"
    proof (rule ccontr)
      assume ne: "path res \<noteq> []"
      then have "last (path res) \<in> set (path res)" by simp
      with inv have "isInside g (entry_r (last (path res))) (entry_c (last (path res)))"
        unfolding pathInv_def by blast
      moreover from inv ne have "entry_r (last (path res)) = r" "entry_c (last (path res)) = c"
        by (simp_all add: pathInv_def)
      ultimately show False using o by simp
    qed
    with inv show ?thesis by (simp add: pathInv_def)
  qed
  have a: "reason res = StepLimit \<longleftrightarrow> length (path res) = maxSteps"
    using fin len by (auto simp: finalCase_def)
  have b: "length (path res) = maxSteps \<longrightarrow> outcome res = LOSE \<and> exitInfo res = None"
    using fin len by (auto simp: finalCase_def)
  have never1: "\<not> isInside g (r0 + fst (dirToDelta d0)) (c0 + snd (dirToDelta d0))"
    if n: "reason res = NeverEntered"
  proof -
    from fin n have "\<not> isInside g r c \<and>
        \<not> isInside g (r + fst (dirToDelta d)) (c + snd (dirToDelta d))"
      by (auto simp: finalCase_def)
    with emp show ?thesis by auto
  qed
  have never2: "res = \<lparr>outcome = LOSE, exitInfo = None, path = [], reason = NeverEntered\<rparr>"
    if "\<not> isInside g (r0 + fst (dirToDelta d0)) (c0 + snd (dirToDelta d0))"
    using t so that by (subst (asm) traceLoop.simps) (simp add: Let_def maxSteps_def)
  have c: "reason res = NeverEntered \<longleftrightarrow>
              \<not> isInside g (r0 + fst (dirToDelta d0)) (c0 + snd (dirToDelta d0))"
    using never1 never2 by auto
  have d: "reason res = NeverEntered \<longrightarrow>
              outcome res = LOSE \<and> exitInfo res = None \<and> path res = []"
    using never1 never2 by auto
  show ?thesis
    using s tr len a b c d by (simp add: maxSteps_def)
qed

theorem traceRay_terminates_witness:
  "side (entry (level newGame)) \<in> {''left'', ''right'', ''top'', ''bottom''} \<and> wfGrid newGame \<and>
   traceRay newGame = Inr newGameResult \<and> length (path newGameResult) \<le> maxSteps \<and>
   reason newGameResult \<noteq> StepLimit \<and>
   side (entry (level neverGame)) \<in> {''left'', ''right'', ''top'', ''bottom''} \<and> wfGrid neverGame \<and>
   entryStartOutside neverGame = Inr (9, -1, DirE) \<and>
   \<not> isInside neverGame (9 + fst (dirToDelta DirE)) (-1 + snd (dirToDelta DirE)) \<and>
   traceRay neverGame = Inr neverGameResult \<and> reason neverGameResult = NeverEntered \<and>
   path neverGameResult = [] \<and>
   side (entry (level wideGame)) \<in> {''left'', ''right'', ''top'', ''bottom''} \<and> wfGrid wideGame \<and>
   (\<exists>res. traceRay wideGame = Inr res \<and> reason res = StepLimit \<and>
          length (path res) = maxSteps \<and> outcome res = LOSE \<and> exitInfo res = None)"
proof -
  have s: "side (entry (level newGame)) \<in> {''left'', ''right'', ''top'', ''bottom''}"
          "side (entry (level neverGame)) \<in> {''left'', ''right'', ''top'', ''bottom''}"
          "side (entry (level wideGame)) \<in> {''left'', ''right'', ''top'', ''bottom''}"
    by (simp_all add: newGame_def neverGame_def wideGame_def)
  have "wfGrid neverGame = wfGrid newGame"
    by (rule wfGrid_cong) (simp_all add: neverGame_def)
  then have w: "wfGrid neverGame" using wfGrid_newGame by simp
  have e: "entryStartOutside neverGame = Inr (9, -1, DirE)"
    by (simp add: entryStartOutside_def neverGame_def newGame_def)
  from traceRay_terminates[OF s(1) wfGrid_newGame]
  obtain res where r1: "traceRay newGame = Inr res" "length (path res) \<le> maxSteps"
      "reason res = StepLimit \<longleftrightarrow> length (path res) = maxSteps"
    by blast
  then have eq1: "res = newGameResult" using traceRay_newGame by simp
  have len: "length (path newGameResult) = 10" by (simp add: newGameResult_def)
  have a: "length (path newGameResult) \<le> maxSteps" "reason newGameResult \<noteq> StepLimit"
    using r1 len by (simp_all add: eq1 maxSteps_def)
  from traceRay_terminates[OF s(2) w]
  obtain res2 r c d where r2: "entryStartOutside neverGame = Inr (r, c, d)"
      "traceRay neverGame = Inr res2"
      "reason res2 = NeverEntered \<longleftrightarrow>
         \<not> isInside neverGame (r + fst (dirToDelta d)) (c + snd (dirToDelta d))"
      "reason res2 = NeverEntered \<longrightarrow> path res2 = []"
    by blast
  have eq2: "res2 = neverGameResult" "r = 9" "c = -1" "d = DirE"
    using r2(1,2) e traceRay_neverGame by simp_all
  have n: "reason neverGameResult = NeverEntered" by (simp add: neverGameResult_def)
  have b: "\<not> isInside neverGame (9 + fst (dirToDelta DirE)) (-1 + snd (dirToDelta DirE))"
      "path neverGameResult = []"
    using r2(3,4) n by (simp_all add: eq2)
  from traceRay_terminates[OF s(3) wfGrid_wideGame]
  obtain res3 where r3: "traceRay wideGame = Inr res3"
      "reason res3 = StepLimit \<longleftrightarrow> length (path res3) = maxSteps"
      "length (path res3) = maxSteps \<longrightarrow> outcome res3 = LOSE \<and> exitInfo res3 = None"
    by blast
  from traceRay_wideGame r3(1) have "reason res3 = StepLimit" by auto
  with r3 have c: "\<exists>res. traceRay wideGame = Inr res \<and> reason res = StepLimit \<and>
          length (path res) = maxSteps \<and> outcome res = LOSE \<and> exitInfo res = None"
    by blast
  show ?thesis
    using s w e wfGrid_newGame wfGrid_wideGame traceRay_newGame traceRay_neverGame a b n c
    by blast
qed

section \<open>Loop detection\<close>

lemma loopInv_next:
  "loopInv g s steps r c d visited pth \<Longrightarrow>
   enteredAt g s steps = (r + fst (dirToDelta d), c + snd (dirToDelta d), d)"
  by (simp add: loopInv_def enteredAt_def) (metis nextKey.simps)

lemma loopInv_no_recurrence_before:
  assumes inv: "loopInv g s steps r c d visited pth"
    and stop: "\<not> steps < maxSteps \<or> \<not> keyInside g (enteredAt g s steps)"
  shows "\<not> tripleRecurs g s"
proof
  assume "tripleRecurs g s"
  then obtain j i where j: "j < maxSteps" and i: "i < j"
    and ins: "\<forall>m \<le> j. keyInside g (enteredAt g s m)"
    and eq: "enteredAt g s i = enteredAt g s j"
    by (auto simp: tripleRecurs_def)
  have "j < steps"
  proof (rule ccontr)
    assume "\<not> j < steps"
    then have le: "steps \<le> j" by simp
    with ins have "keyInside g (enteredAt g s steps)" by blast
    moreover from le j have "steps < maxSteps" by simp
    ultimately show False using stop by blast
  qed
  with i have "i \<in> {..<steps}" "j \<in> {..<steps}" by simp_all
  with inv eq have "i = j" by (auto simp: loopInv_def inj_on_def)
  with i show False by simp
qed

lemma loopInv_step:
  assumes inv: "loopInv g s steps r c d visited pth"
    and ins: "isInside g (r + fst (dirToDelta d)) (c + snd (dirToDelta d))"
    and new: "(r + fst (dirToDelta d), c + snd (dirToDelta d), d) \<notin> visited"
    and rd: "readCell g (r + fst (dirToDelta d)) (c + snd (dirToDelta d)) = Inr cellVal"
  shows "loopInv g s (steps + 1) (r + fst (dirToDelta d)) (c + snd (dirToDelta d))
           (if cellVal = Some 1 \<or> cellVal = Some 2 then rotateCCW d else d)
           (insert (r + fst (dirToDelta d), c + snd (dirToDelta d), d) visited) pth'"
proof -
  have nk: "enteredAt g s steps = (r + fst (dirToDelta d), c + snd (dirToDelta d), d)"
    by (rule loopInv_next[OF inv])
  have cur: "(rayStep g ^^ steps) s = (r, c, d)" using inv by (simp add: loopInv_def)
  have a: "(rayStep g ^^ (steps + 1)) s =
           (r + fst (dirToDelta d), c + snd (dirToDelta d),
            if cellVal = Some 1 \<or> cellVal = Some 2 then rotateCCW d else d)"
    using rd by (simp add: cur Let_def)
  have b: "insert (enteredAt g s steps) (enteredAt g s ` {..<steps}) = enteredAt g s ` {..<steps + 1}"
    by (simp add: lessThan_Suc)
  have c: "\<forall>m < steps + 1. keyInside g (enteredAt g s m)"
  proof (intro allI impI)
    fix m assume "m < steps + 1"
    then consider "m < steps" | "m = steps" by linarith
    then show "keyInside g (enteredAt g s m)"
    proof cases
      case 1 then show ?thesis using inv by (simp add: loopInv_def)
    next
      case 2 then show ?thesis using ins by (simp add: nk)
    qed
  qed
  have d: "inj_on (enteredAt g s) {..<steps + 1}"
    using inv new nk by (simp add: loopInv_def lessThan_Suc)
  show ?thesis
    unfolding loopInv_def nk[symmetric]
    using a b c d inv nk by (simp add: loopInv_def)
qed

lemma loopInv_recurrence:
  assumes inv: "loopInv g s steps r c d visited pth"
    and lt: "steps < maxSteps"
    and ins: "isInside g (r + fst (dirToDelta d)) (c + snd (dirToDelta d))"
    and seen: "(r + fst (dirToDelta d), c + snd (dirToDelta d), d) \<in> visited"
  shows "tripleRecurs g s"
proof -
  have nk: "enteredAt g s steps = (r + fst (dirToDelta d), c + snd (dirToDelta d), d)"
    by (rule loopInv_next[OF inv])
  from seen inv obtain i where i: "i < steps" "enteredAt g s i = enteredAt g s steps"
    by (auto simp: loopInv_def nk)
  have all: "\<forall>m \<le> steps. keyInside g (enteredAt g s m)"
  proof (intro allI impI)
    fix m assume "m \<le> steps"
    then consider "m < steps" | "m = steps" by linarith
    then show "keyInside g (enteredAt g s m)"
    proof cases
      case 1 then show ?thesis using inv by (simp add: loopInv_def)
    next
      case 2 then show ?thesis using ins by (simp add: nk)
    qed
  qed
  show ?thesis
    unfolding tripleRecurs_def using lt i all by blast
qed

text \<open>
  C6. The loop of \<open>traceRay\<close>, run from any start position and direction with an empty memo
  and an empty path (as \<open>traceRay\<close> runs it from the entry start), returns the reason
  \<open>LoopDetected\<close> exactly if, within the 512 iterations, the ray enters triples (row,
  column, direction) all in the grid up to a triple it has entered before; the outcome is
  then \<open>LOSE\<close> with no exit. The triple is compared as a whole: entering a cell again in
  another direction is no recurrence, and the loop goes on: from a start inside a 2 by 2
  block of obstacles the fifth triple is the first again, while a trace that crosses the
  cell (3, 3) eastwards and later southwards leaves at the bottom.
\<close>

theorem loop_detected_iff_triple_recurs:
  assumes "traceLoop g 0 r c d {} [] = Inr res"
  shows "(reason res = LoopDetected \<longleftrightarrow> tripleRecurs g (r, c, d)) \<and>
         (reason res = LoopDetected \<longrightarrow> outcome res = LOSE \<and> exitInfo res = None)"
    (is "?Q res")
proof (rule traceLoop_rule[where I = "loopInv g (r, c, d)" and Q = ?Q and g = g, OF _ _ _ _ _ _ assms])
  show "loopInv g (r, c, d) 0 r c d {} []" by (simp add: loopInv_def)
next
  fix steps r' c' d' visited pth cellVal
  assume a: "loopInv g (r, c, d) steps r' c' d' visited pth"
    "isInside g (r' + fst (dirToDelta d')) (c' + snd (dirToDelta d'))"
    "(r' + fst (dirToDelta d'), c' + snd (dirToDelta d'), d') \<notin> visited"
    "readCell g (r' + fst (dirToDelta d')) (c' + snd (dirToDelta d')) = Inr cellVal"
  from a show "loopInv g (r, c, d) (steps + 1) (r' + fst (dirToDelta d')) (c' + snd (dirToDelta d'))
        (if cellVal = Some 1 \<or> cellVal = Some 2 then rotateCCW d' else d')
        (insert (r' + fst (dirToDelta d'), c' + snd (dirToDelta d'), d') visited)
        (pth @ [\<lparr>entry_r = r' + fst (dirToDelta d'), entry_c = c' + snd (dirToDelta d'),
                 dirBeforeCell = d', cellType = cellTypeOf cellVal\<rparr>])"
    by (rule loopInv_step)
next
  fix steps r' c' d' visited pth info
  assume inv: "loopInv g (r, c, d) steps r' c' d' visited pth"
    and out: "\<not> isInside g (r' + fst (dirToDelta d')) (c' + snd (dirToDelta d'))"
  have "\<not> keyInside g (enteredAt g (r, c, d) steps)"
    using out by (simp add: loopInv_next[OF inv])
  then have "\<not> tripleRecurs g (r, c, d)"
    using loopInv_no_recurrence_before[OF inv] by blast
  then show "?Q (exitResult g info pth)" by (simp add: exitResult_def Let_def)
next
  fix steps r' c' d' visited pth
  assume inv: "loopInv g (r, c, d) steps r' c' d' visited pth"
    and out: "\<not> isInside g (r' + fst (dirToDelta d')) (c' + snd (dirToDelta d'))"
  have "\<not> keyInside g (enteredAt g (r, c, d) steps)"
    using out by (simp add: loopInv_next[OF inv])
  then have "\<not> tripleRecurs g (r, c, d)"
    using loopInv_no_recurrence_before[OF inv] by blast
  then show "?Q \<lparr>outcome = LOSE, exitInfo = None, path = pth, reason = NeverEntered\<rparr>" by simp
next
  fix steps r' c' d' visited pth
  assume inv: "loopInv g (r, c, d) steps r' c' d' visited pth"
    and lt: "steps < maxSteps"
    and ins: "isInside g (r' + fst (dirToDelta d')) (c' + snd (dirToDelta d'))"
    and seen: "(r' + fst (dirToDelta d'), c' + snd (dirToDelta d'), d') \<in> visited"
  have "tripleRecurs g (r, c, d)"
    by (rule loopInv_recurrence[OF inv lt ins seen])
  then show "?Q \<lparr>outcome = LOSE, exitInfo = None, path = pth, reason = LoopDetected\<rparr>" by simp
next
  fix steps r' c' d' visited pth
  assume inv: "loopInv g (r, c, d) steps r' c' d' visited pth" and ge: "\<not> steps < maxSteps"
  have "\<not> tripleRecurs g (r, c, d)"
    using loopInv_no_recurrence_before[OF inv] ge by blast
  then show "?Q \<lparr>outcome = LOSE, exitInfo = None, path = pth, reason = StepLimit\<rparr>" by simp
qed

lemma traceLoop_loopGame: "traceLoop loopGame 0 1 0 DirE {} [] = Inr loopResult"
  by (simp add: trace_eval loopGame_def newGame_def emptyMatrix_def loopResult_def)

lemma traceLoop_crossGame: "traceLoop crossGame 0 3 (-1) DirE {} [] = Inr crossResult"
  by (simp add: trace_eval crossGame_def newGame_def emptyMatrix_def crossResult_def)

theorem loop_detected_iff_triple_recurs_witness:
  "traceLoop loopGame 0 1 0 DirE {} [] = Inr loopResult \<and>
   reason loopResult = LoopDetected \<and> tripleRecurs loopGame (1, 0, DirE) \<and>
   outcome loopResult = LOSE \<and>
   entryStartOutside crossGame = Inr (3, -1, DirE) \<and>
   traceLoop crossGame 0 3 (-1) DirE {} [] = Inr crossResult \<and>
   reason crossResult \<noteq> LoopDetected \<and> \<not> tripleRecurs crossGame (3, -1, DirE) \<and>
   path crossResult ! 3 =
     \<lparr>entry_r = 3, entry_c = 3, dirBeforeCell = DirE, cellType = ''EMPTY''\<rparr> \<and>
   path crossResult ! 11 =
     \<lparr>entry_r = 3, entry_c = 3, dirBeforeCell = DirS, cellType = ''EMPTY''\<rparr>"
proof -
  have l: "reason loopResult = LoopDetected" by (simp add: loopResult_def)
  have c: "reason crossResult \<noteq> LoopDetected"
      "path crossResult ! 3 =
         \<lparr>entry_r = 3, entry_c = 3, dirBeforeCell = DirE, cellType = ''EMPTY''\<rparr>"
      "path crossResult ! 11 =
         \<lparr>entry_r = 3, entry_c = 3, dirBeforeCell = DirS, cellType = ''EMPTY''\<rparr>"
    by (simp_all add: crossResult_def)
  have e: "entryStartOutside crossGame = Inr (3, -1, DirE)"
    by (simp add: entryStartOutside_def crossGame_def newGame_def)
  have a: "tripleRecurs loopGame (1, 0, DirE)" "outcome loopResult = LOSE"
    using loop_detected_iff_triple_recurs[OF traceLoop_loopGame] l by blast+
  have b: "\<not> tripleRecurs crossGame (3, -1, DirE)"
    using loop_detected_iff_triple_recurs[OF traceLoop_crossGame] c(1) by blast
  show ?thesis
    using traceLoop_loopGame traceLoop_crossGame l c e a b by blast
qed

text \<open>
  From the start position of an entry the ray cannot come back to a triple: \<open>rayStep\<close> is
  injective and the start is outside the grid, so \<open>traceRay\<close> itself never returns
  \<open>LoopDetected\<close>.
\<close>

lemma loop_detected_recurs:
  assumes "traceLoop g 0 r c d {} [] = Inr res"
  shows "reason res = LoopDetected \<longrightarrow> tripleRecurs g (r, c, d)"
    (is "?Q res")
proof (rule traceLoop_rule[where I = "loopInv g (r, c, d)" and Q = ?Q and g = g, OF _ _ _ _ _ _ assms])
  show "loopInv g (r, c, d) 0 r c d {} []" by (simp add: loopInv_def)
next
  fix steps r' c' d' visited pth cellVal
  assume a: "loopInv g (r, c, d) steps r' c' d' visited pth"
    "isInside g (r' + fst (dirToDelta d')) (c' + snd (dirToDelta d'))"
    "(r' + fst (dirToDelta d'), c' + snd (dirToDelta d'), d') \<notin> visited"
    "readCell g (r' + fst (dirToDelta d')) (c' + snd (dirToDelta d')) = Inr cellVal"
  from a show "loopInv g (r, c, d) (steps + 1) (r' + fst (dirToDelta d')) (c' + snd (dirToDelta d'))
        (if cellVal = Some 1 \<or> cellVal = Some 2 then rotateCCW d' else d')
        (insert (r' + fst (dirToDelta d'), c' + snd (dirToDelta d'), d') visited)
        (pth @ [\<lparr>entry_r = r' + fst (dirToDelta d'), entry_c = c' + snd (dirToDelta d'),
                 dirBeforeCell = d', cellType = cellTypeOf cellVal\<rparr>])"
    by (rule loopInv_step)
next
  fix info pth
  show "?Q (exitResult g info pth)" by (simp add: exitResult_def Let_def)
next
  fix pth
  show "?Q \<lparr>outcome = LOSE, exitInfo = None, path = pth, reason = NeverEntered\<rparr>" by simp
next
  fix steps r' c' d' visited pth
  assume "loopInv g (r, c, d) steps r' c' d' visited pth" "steps < maxSteps"
    "isInside g (r' + fst (dirToDelta d')) (c' + snd (dirToDelta d'))"
    "(r' + fst (dirToDelta d'), c' + snd (dirToDelta d'), d') \<in> visited"
  then have "tripleRecurs g (r, c, d)" by (rule loopInv_recurrence)
  then show "?Q \<lparr>outcome = LOSE, exitInfo = None, path = pth, reason = LoopDetected\<rparr>" by simp
next
  fix pth
  show "?Q \<lparr>outcome = LOSE, exitInfo = None, path = pth, reason = StepLimit\<rparr>" by simp
qed

lemma rotateCCW_inj: "rotateCCW a = rotateCCW b \<Longrightarrow> a = b"
  by (cases a; cases b) simp_all

lemma rayStep_inj: "rayStep g a = rayStep g b \<Longrightarrow> a = b"
proof -
  obtain r c d where a: "a = (r, c, d)" by (cases a)
  obtain r' c' d' where b: "b = (r', c', d')" by (cases b)
  assume e: "rayStep g a = rayStep g b"
  define nr where "nr = r + fst (dirToDelta d)"
  define nc where "nc = c + snd (dirToDelta d)"
  have p: "r' + fst (dirToDelta d') = nr" "c' + snd (dirToDelta d') = nc"
    using e by (simp_all add: a b Let_def nr_def nc_def)
  have "rayStep g a = (nr, nc, case readCell g nr nc of
              Inl x \<Rightarrow> d
            | Inr cellVal \<Rightarrow> if cellVal = Some 1 \<or> cellVal = Some 2 then rotateCCW d else d)"
    by (simp add: a Let_def nr_def nc_def)
  moreover have "rayStep g b = (nr, nc, case readCell g nr nc of
              Inl x \<Rightarrow> d'
            | Inr cellVal \<Rightarrow> if cellVal = Some 1 \<or> cellVal = Some 2 then rotateCCW d' else d')"
    by (simp add: b Let_def p)
  ultimately have "d = d'"
    using e by (cases "readCell g nr nc") (auto split: if_splits dest: rotateCCW_inj)
  with p show ?thesis by (simp add: a b nr_def nc_def)
qed

lemma nextKey_inj: "nextKey a = nextKey b \<Longrightarrow> a = b"
  by (cases a; cases b) auto

lemma rayStep_position:
  "keyInside g (nextKey a) \<Longrightarrow> keyInside g (rayStep g a)"
  by (cases a) (simp add: Let_def)

lemma no_return_to_outside:
  assumes out: "\<not> keyInside g s"
  shows "i < j \<Longrightarrow> \<forall>m < j. keyInside g (enteredAt g s m) \<Longrightarrow>
         (rayStep g ^^ i) s \<noteq> (rayStep g ^^ j) s"
proof (induction i arbitrary: j)
  case 0
  then obtain j' where j: "j = Suc j'" by (cases j) auto
  with 0 have "keyInside g (enteredAt g s j')" by simp
  then have "keyInside g ((rayStep g ^^ j) s)"
    by (simp add: j enteredAt_def rayStep_position)
  with out show ?case by auto
next
  case (Suc i)
  then obtain j' where j: "j = Suc j'" by (cases j) auto
  with Suc.prems have "i < j'" "\<forall>m < j'. keyInside g (enteredAt g s m)" by simp_all
  from Suc.IH[OF this] show ?case
    by (auto simp: j dest: rayStep_inj)
qed

lemma entry_never_recurs:
  assumes "entryStartOutside g = Inr (r, c, d)"
  shows "\<not> tripleRecurs g (r, c, d)"
proof
  assume "tripleRecurs g (r, c, d)"
  then obtain j i where i: "i < j"
    and ins: "\<forall>m \<le> j. keyInside g (enteredAt g (r, c, d) m)"
    and eq: "enteredAt g (r, c, d) i = enteredAt g (r, c, d) j"
    by (auto simp: tripleRecurs_def)
  have out: "\<not> keyInside g (r, c, d)"
    using entryStartOutside_outside[OF assms] by simp
  from eq have "(rayStep g ^^ i) (r, c, d) = (rayStep g ^^ j) (r, c, d)"
    by (auto simp: enteredAt_def dest: nextKey_inj)
  moreover from ins have "\<forall>m < j. keyInside g (enteredAt g (r, c, d) m)" by simp
  ultimately show False using no_return_to_outside[OF out i] by blast
qed

lemma traceRay_never_reports_loop:
  assumes "traceRay g = Inr res"
  shows "reason res \<noteq> LoopDetected"
proof -
  from assms obtain r c d where s: "entryStartOutside g = Inr (r, c, d)"
    and t: "traceLoop g 0 r c d {} [] = Inr res"
    by (auto simp: traceRay_def split: sum.splits)
  from loop_detected_recurs[OF t] entry_never_recurs[OF s] show ?thesis by blast
qed

end
